theory Spec2Isabelle
  imports Main "HOL-Library.Product_Lexorder" "HOL-Library.Multiset"
begin

unbundle bit_operations_syntax

section \<open>Python string helpers used by vttLib\<close>

text \<open>
  Strings are byte strings (\<open>char list\<close>).  The helpers below follow the Python
  built-ins that \<^verbatim>\<open>vttLib/__init__.py\<close> calls: \<^verbatim>\<open>str.startswith\<close>,
  \<^verbatim>\<open>str.endswith\<close>, \<^verbatim>\<open>str.replace\<close>, \<^verbatim>\<open>str.join\<close>, \<^verbatim>\<open>str(int)\<close> and
  \<^verbatim>\<open>str.strip\<close>.
\<close>

definition startswith :: "string \<Rightarrow> string \<Rightarrow> bool" where
  "startswith s p = (take (length p) s = p)"

definition endswith :: "string \<Rightarrow> string \<Rightarrow> bool" where
  "endswith s p = (length p \<le> length s \<and> drop (length s - length p) s = p)"

text \<open>\<^verbatim>\<open>s.replace(old, new)\<close>: every non-overlapping occurrence, left to right.\<close>

function replace :: "string \<Rightarrow> string \<Rightarrow> string \<Rightarrow> string" where
  "replace s old new =
     (if old = [] then new @ concat (map (\<lambda>c. c # new) s)
      else if s = [] then []
      else if startswith s old then new @ replace (drop (length old) s) old new
      else hd s # replace (tl s) old new)"
  by pat_completeness auto
termination
  by (relation "measure (\<lambda>(s, old, new). length s)") auto

text \<open>\<^verbatim>\<open>sep.join(xs)\<close>.\<close>

fun join :: "string \<Rightarrow> string list \<Rightarrow> string" where
  "join sep [] = []"
| "join sep [x] = x"
| "join sep (x # y # ys) = x @ sep @ join sep (y # ys)"

text \<open>\<^verbatim>\<open>str(i)\<close> and \<^verbatim>\<open>"%d" % i\<close> for a Python integer: decimal digits, a leading minus.\<close>

definition digit_char :: "nat \<Rightarrow> char" where
  "digit_char d = ''0123456789'' ! d"

fun str_nat :: "nat \<Rightarrow> string" where
  "str_nat n = (if n < 10 then [digit_char n] else str_nat (n div 10) @ [digit_char (n mod 10)])"

declare str_nat.simps [simp del]

definition str_int :: "int \<Rightarrow> string" where
  "str_int i = (if i < 0 then CHR ''-'' # str_nat (nat (- i)) else str_nat (nat i))"

text \<open>
  \<^verbatim>\<open>str.strip()\<close> removes leading and trailing whitespace.  In the ASCII range the
  whitespace characters of a Python string are space, TAB, LF, VT, FF, CR and the
  separators 0x1C to 0x1F; whitespace beyond ASCII is several bytes here and is
  not stripped by the model.
\<close>

definition isspace :: "char \<Rightarrow> bool" where
  "isspace c = (c \<in> set [CHR '' '', CHR 0x09, CHR 0x0A, CHR 0x0B, CHR 0x0C, CHR 0x0D,
                           CHR 0x1C, CHR 0x1D, CHR 0x1E, CHR 0x1F])"

definition strip :: "string \<Rightarrow> string" where
  "strip s = rev (dropWhile isspace (rev (dropWhile isspace s)))"


section \<open>Data model of \<^verbatim>\<open>transform_assembly\<close>\<close>

text \<open>
  A token as \<^verbatim>\<open>AssemblyParser\<close> delivers it (the parser lives in \<^verbatim>\<open>vttLib.parser\<close>
  and is a parameter of the model): the fields \<^verbatim>\<open>transform_assembly\<close> reads.
\<close>

record token =
  mnemonic :: string
  flags :: string
  stack_items :: "int list"
  deltas :: "(int \<times> int \<times> int) list"

text \<open>
  The two namedtuples.  \<^verbatim>\<open>OffsetComponent(index, x, y, round_to_grid, use_my_metrics,
  scaled_offset)\<close> and \<^verbatim>\<open>AnchorComponent(index, first, second, use_my_metrics,
  scaled_offset)\<close>; \<^verbatim>\<open>scaled_offset\<close> is \<^verbatim>\<open>None\<close>, \<^verbatim>\<open>True\<close> or \<^verbatim>\<open>False\<close>.
\<close>

datatype component =
    OffsetComponent int int int bool bool "bool option"
  | AnchorComponent int int int bool "bool option"

text \<open>
  An entry of \<^verbatim>\<open>stream\<close> is a deque of pending operands (\<^verbatim>\<open>appendleft\<close> is \<open>#\<close>)
  or a finished line of text.
\<close>

datatype entry = Stack "int list" | Line string

datatype error =
    ParseException
  | ValueError
  | IndexError
  | AttributeError
  | TypeError
  | UnboundLocalError
  | AssertPushOn
  | AssertDeltas
  | AssertNoStackItems
  | AssertScopes "nat list"

record state =
  push_on :: bool
  push_indexes :: "nat list"
  stream :: "entry list"
  pos :: nat
  components :: "component list"
  round_to_grid :: bool
  use_my_metrics :: bool
  scaled_offset :: "bool option"
  delta_base :: "int option"


section \<open>Delta encoding (lines 186 to 216)\<close>

text \<open>
  \<^verbatim>\<open>deltas.setdefault(point_index, []).append((rel_ppem, step_no))\<close> on an
  \<^verbatim>\<open>OrderedDict\<close>: an association list in order of first insertion.
\<close>

fun setdefault_append ::
  "(int \<times> (int \<times> int) list) list \<Rightarrow> int \<Rightarrow> int \<times> int \<Rightarrow> (int \<times> (int \<times> int) list) list" where
  "setdefault_append [] k v = [(k, [v])]"
| "setdefault_append ((k', vs) # d) k v =
     (if k' = k then (k', vs @ [v]) # d else (k', vs) # setdefault_append d k v)"

text \<open>The loop over \<^verbatim>\<open>reversed(t.deltas)\<close> that fills the dictionary.\<close>

definition group_deltas :: "(int \<times> int \<times> int) list \<Rightarrow> (int \<times> (int \<times> int) list) list" where
  "group_deltas ds = foldl (\<lambda>d (p, r, sn). setdefault_append d p (r, sn)) [] (rev ds)"

text \<open>
  \<^verbatim>\<open>sorted(delta_specs, reverse=True)\<close> on pairs of integers, compared
  lexicographically.  Equal pairs are indistinguishable, so reversing the ascending
  sort gives the same list as Python's stable descending sort.
\<close>

definition sorted_reverse :: "(int \<times> int) list \<Rightarrow> (int \<times> int) list" where
  "sorted_reverse xs = rev (sort xs)"

text \<open>\<^verbatim>\<open>selector = (step_no + 7) if step_no > 0 else (step_no + 8)\<close>.\<close>

definition selector :: "int \<Rightarrow> int" where
  "selector step_no = (if step_no > 0 then step_no + 7 else step_no + 8)"

text \<open>\<^verbatim>\<open>(rel_ppem << 4) | selector\<close> on Python's unbounded integers.\<close>

definition pack :: "int \<Rightarrow> int \<Rightarrow> int" where
  "pack rel_ppem step_no = push_bit 4 rel_ppem OR selector step_no"

text \<open>
  Lines 199 to 210.  \<^verbatim>\<open>delta_base\<close> is a local of the whole function: it is
  assigned only when the mnemonic ends in 1, 2 or 3, keeps its last value otherwise,
  and reading it before any assignment raises \<^verbatim>\<open>UnboundLocalError\<close>.  The result is
  the new \<^verbatim>\<open>delta_base\<close> and the adjusted \<^verbatim>\<open>rel_ppem\<close>.
\<close>

definition subtract_base :: "string \<Rightarrow> int option \<Rightarrow> int \<Rightarrow> error + (int option \<times> int)" where
  "subtract_base m db rel_ppem =
     (if startswith m ''DELTAP'' \<or> startswith m ''DELTAC'' then
        (let db' = (if endswith m ''1'' then Some 9
                    else if endswith m ''2'' then Some 25
                    else if endswith m ''3'' then Some 41
                    else db)
         in case db' of
              None \<Rightarrow> Inl UnboundLocalError
            | Some b \<Rightarrow> Inr (db', rel_ppem - b))
      else Inr (db, rel_ppem))"

text \<open>The inner loop (line 198) over the sorted specs of one point.\<close>

fun push_specs ::
  "string \<Rightarrow> int \<Rightarrow> (int \<times> int) list \<Rightarrow> int option \<Rightarrow> int list \<Rightarrow> error + (int option \<times> int list)" where
  "push_specs m p [] db st = Inr (db, st)"
| "push_specs m p ((rel_ppem, step_no) # specs) db st =
     (case subtract_base m db rel_ppem of
        Inl e \<Rightarrow> Inl e
      | Inr (db', r) \<Rightarrow> push_specs m p specs db' (pack r step_no # p # st))"

text \<open>The outer loop (line 197) over \<^verbatim>\<open>deltas.items()\<close>.\<close>

fun push_groups ::
  "string \<Rightarrow> (int \<times> (int \<times> int) list) list \<Rightarrow> int option \<Rightarrow> int list \<Rightarrow> error + (int option \<times> int list)" where
  "push_groups m [] db st = Inr (db, st)"
| "push_groups m ((p, specs) # gs) db st =
     (case push_specs m p (sorted_reverse specs) db st of
        Inl e \<Rightarrow> Inl e
      | Inr (db', st') \<Rightarrow> push_groups m gs db' st')"

text \<open>
  Lines 188 to 214 on the deque \<open>st\<close>: the count is pushed first, then the pairs.
\<close>

definition push_deltas ::
  "string \<Rightarrow> (int \<times> int \<times> int) list \<Rightarrow> int option \<Rightarrow> int list \<Rightarrow> error + (int option \<times> int list)" where
  "push_deltas m ds db st = push_groups m (group_deltas ds) db (int (length ds) # st)"


section \<open>The token loop of \<^verbatim>\<open>transform_assembly\<close> (lines 127 to 225)\<close>

text \<open>\<^verbatim>\<open>"PUSH[] %s" % " ".join([str(i) for i in stack])\<close>.\<close>

definition push_line :: "int list \<Rightarrow> string" where
  "push_line st = ''PUSH[] '' @ join '' '' (map str_int st)"

text \<open>Lines 224 and 225: \<^verbatim>\<open>stream.append("%s[%s]" % (mnemonic, t.flags)); pos += 1\<close>.\<close>

definition instruction_line :: "string \<Rightarrow> string \<Rightarrow> string" where
  "instruction_line m f = m @ ''['' @ f @ '']''"

definition emit :: "state \<Rightarrow> string \<Rightarrow> string \<Rightarrow> state" where
  "emit s m f = s\<lparr>stream := stream s @ [Line (instruction_line m f)], pos := pos s + 1\<rparr>"

text \<open>
  \<^verbatim>\<open>stream[push_indexes[-1]]\<close>, the deque of the innermost open scope.  An empty
  \<^verbatim>\<open>push_indexes\<close> or an index past the end raises \<^verbatim>\<open>IndexError\<close>; an entry that is
  already a line has no \<^verbatim>\<open>appendleft\<close>.
\<close>

definition current_stack :: "state \<Rightarrow> error + (nat \<times> int list)" where
  "current_stack s =
     (if push_indexes s = [] then Inl IndexError
      else let pi = last (push_indexes s) in
        if pi \<ge> length (stream s) then Inl IndexError
        else case stream s ! pi of
               Stack st \<Rightarrow> Inr (pi, st)
             | Line l \<Rightarrow> Inl AttributeError)"

text \<open>The mnemonic written for a delta instruction (lines 215 and 216).\<close>

definition canonical :: "string \<Rightarrow> string" where
  "canonical m = (if startswith m ''DLT'' then replace m ''DLT'' ''DELTA'' else m)"

definition is_delta :: "string \<Rightarrow> bool" where
  "is_delta m = (startswith m ''DLTC'' \<or> startswith m ''DLTP'' \<or>
                 startswith m ''DELTAP'' \<or> startswith m ''DELTAC'')"

text \<open>One iteration of the \<^verbatim>\<open>for t in tokens\<close> loop.\<close>

definition step :: "state \<Rightarrow> token \<Rightarrow> error + state" where
  "step s t =
    (let m = mnemonic t in
     if m = ''OVERLAP'' then Inr s
     else if m = ''USEMYMETRICS'' then Inr (s\<lparr>use_my_metrics := True\<rparr>)
     else if m = ''SCALEDCOMPONENTOFFSET'' then Inr (s\<lparr>scaled_offset := Some True\<rparr>)
     else if m = ''UNSCALEDCOMPONENTOFFSET'' then Inr (s\<lparr>scaled_offset := Some False\<rparr>)
     else if m = ''OFFSET'' then
       (case stack_items t of
          [index, x, y] \<Rightarrow>
            Inr (s\<lparr>components := components s @
                      [OffsetComponent index x y (flags t = ''1'') (use_my_metrics s) (scaled_offset s)],
                   use_my_metrics := False, round_to_grid := False, scaled_offset := None\<rparr>)
        | _ \<Rightarrow> Inl ValueError)
     else if m = ''ANCHOR'' then
       (case stack_items t of
          [index, first, second] \<Rightarrow>
            Inr (emit (s\<lparr>components := components s @
                            [AnchorComponent index first second (use_my_metrics s) (scaled_offset s)],
                         use_my_metrics := False, scaled_offset := None\<rparr>) m (flags t))
        | _ \<Rightarrow> Inl ValueError)
     else if m = ''#PUSHON'' then Inr (s\<lparr>push_on := True\<rparr>)
     else if m = ''#PUSHOFF'' then Inr (s\<lparr>push_on := False\<rparr>)
     else if m = ''#BEGIN'' then
       Inr (s\<lparr>push_indexes := push_indexes s @ [pos s],
              stream := stream s @ [Stack []],
              pos := pos s + 1\<rparr>)
     else if m = ''#END'' then
       (if push_indexes s = [] then Inl IndexError
        else let pi = last (push_indexes s);
                 s' = s\<lparr>push_indexes := butlast (push_indexes s)\<rparr> in
          if pi \<ge> length (stream s) then Inl IndexError
          else case stream s ! pi of
                 Stack st \<Rightarrow>
                   if st \<noteq> [] then Inr (s'\<lparr>stream := (stream s)[pi := Line (push_line st)]\<rparr>)
                   else Inr s'
               | Line l \<Rightarrow>
                   if l \<noteq> [] then
                     Inr (s'\<lparr>stream := (stream s)[pi := Line (''PUSH[] '' @ join '' '' (map (\<lambda>c. [c]) l))]\<rparr>)
                   else Inr s')
     else if m = ''#PUSH'' then
       Inr (s\<lparr>stream := stream s @ [Line (push_line (stack_items t))], pos := pos s + 1\<rparr>)
     else if is_delta m then
       (if \<not> push_on s then Inl AssertPushOn
        else if \<not> length (deltas t) > 0 then Inl AssertDeltas
        else case current_stack s of
               Inl e \<Rightarrow> Inl e
             | Inr (pi, st) \<Rightarrow>
                 (case push_deltas m (deltas t) (delta_base s) st of
                    Inl e \<Rightarrow> Inl e
                  | Inr (db, st') \<Rightarrow>
                      Inr (emit (s\<lparr>stream := (stream s)[pi := Stack st'], delta_base := db\<rparr>)
                             (canonical m) (flags t))))
     else if push_on s then
       (if stack_items t = [] then Inr (emit s m (flags t))
        else case current_stack s of
               Inl e \<Rightarrow> Inl e
             | Inr (pi, st) \<Rightarrow>
                 Inr (emit (s\<lparr>stream := (stream s)[pi := Stack (stack_items t @ st)]\<rparr>) m (flags t)))
     else if stack_items t \<noteq> [] then Inl AssertNoStackItems
     else Inr (emit s m (flags t)))"

fun run :: "state \<Rightarrow> token list \<Rightarrow> error + state" where
  "run s [] = Inr s"
| "run s (t # ts) = (case step s t of Inl e \<Rightarrow> Inl e | Inr s' \<Rightarrow> run s' ts)"

text \<open>Lines 118 to 126: the state before the first token.\<close>

definition initial :: "component list \<Rightarrow> state" where
  "initial comps =
     \<lparr>push_on = True, push_indexes = [0], stream = [Stack []], pos = 1,
      components = comps, round_to_grid = False, use_my_metrics = False,
      scaled_offset = None, delta_base = None\<rparr>"

text \<open>
  Lines 227 to 232.  The assertion on \<^verbatim>\<open>push_indexes\<close>, the root deque turned into
  its \<^verbatim>\<open>PUSH[]\<close> line, and the join of the entries that are true (a non-empty string
  or a non-empty deque; joining a deque is a \<^verbatim>\<open>TypeError\<close>).  The lines are returned
  as a list; \<^verbatim>\<open>transform_tokens\<close> joins them.
\<close>

definition truthy :: "entry \<Rightarrow> bool" where
  "truthy e = (case e of Stack st \<Rightarrow> st \<noteq> [] | Line l \<Rightarrow> l \<noteq> [])"

definition close_root :: "entry list \<Rightarrow> error + entry list" where
  "close_root es =
     (case es of
        [] \<Rightarrow> Inl IndexError
      | Stack st # rest \<Rightarrow> Inr (if st \<noteq> [] then Line (push_line st) # rest else es)
      | Line l # rest \<Rightarrow>
          Inr (if l \<noteq> [] then Line (''PUSH[] '' @ join '' '' (map (\<lambda>c. [c]) l)) # rest else es))"

definition entry_lines :: "entry list \<Rightarrow> error + string list" where
  "entry_lines es =
     (let kept = filter truthy es in
      if list_all (\<lambda>e. case e of Line l \<Rightarrow> True | Stack st \<Rightarrow> False) kept
      then Inr (map (\<lambda>e. case e of Line l \<Rightarrow> l | Stack st \<Rightarrow> []) kept)
      else Inl TypeError)"

definition finish :: "state \<Rightarrow> error + string list" where
  "finish s =
     (if push_indexes s \<noteq> [0] then Inl (AssertScopes (push_indexes s))
      else case close_root (stream s) of
             Inl e \<Rightarrow> Inl e
           | Inr es \<Rightarrow> entry_lines es)"

text \<open>
  The function from line 118 on, for the token sequence the parser returned: the
  output lines and the component list (the list argument is extended in place).
\<close>

definition transform_lines :: "token list \<Rightarrow> component list \<Rightarrow> error + (string list \<times> component list)" where
  "transform_lines toks comps =
     (case run (initial comps) toks of
        Inl e \<Rightarrow> Inl e
      | Inr s \<Rightarrow> (case finish s of Inl e \<Rightarrow> Inl e | Inr ls \<Rightarrow> Inr (ls, components s)))"

definition newline :: string where
  "newline = [CHR 0x0A]"

definition transform_tokens :: "token list \<Rightarrow> component list \<Rightarrow> error + (string \<times> component list)" where
  "transform_tokens toks comps =
     (case transform_lines toks comps of
        Inl e \<Rightarrow> Inl e
      | Inr (ls, cs) \<Rightarrow> Inr (join newline ls, cs))"

text \<open>
  \<^verbatim>\<open>transform_assembly(data, components)\<close>.  \<open>parseString\<close> stands for
  \<^verbatim>\<open>AssemblyParser.parseString(data, parseAll=True)\<close>; \<^verbatim>\<open>components=None\<close> is the
  empty list.
\<close>

definition transform_assembly ::
  "(string \<Rightarrow> error + token list) \<Rightarrow> string \<Rightarrow> component list \<Rightarrow> error + (string \<times> component list)" where
  "transform_assembly parseString data comps =
     (let data' = strip data in
      if data' = [] then Inr ([], comps)
      else case parseString data' of
             Inl e \<Rightarrow> Inl e
           | Inr toks \<Rightarrow> transform_tokens toks comps)"


section \<open>Decoding a packed delta argument\<close>

text \<open>
  The readers of a packed value, as the specification words them: the selector is the
  low nibble, the size is the nibble above it (\<open>high_nibble\<close>, four bits) or all the
  bits above the selector (\<open>upper_bits\<close>, Python's \<^verbatim>\<open>packed >> 4\<close>).  \<open>decode_step\<close>
  inverts the selector table \<^verbatim>\<open>-8: 0, ... -1: 7, 1: 8, ... 8: 15\<close>.
\<close>

definition low_nibble :: "int \<Rightarrow> int" where
  "low_nibble v = v AND 15"

definition high_nibble :: "int \<Rightarrow> int" where
  "high_nibble v = drop_bit 4 v AND 15"

definition upper_bits :: "int \<Rightarrow> int" where
  "upper_bits v = drop_bit 4 v"

definition decode_step :: "int \<Rightarrow> int" where
  "decode_step sel = (if sel \<ge> 8 then sel - 7 else sel - 8)"

text \<open>
  The base of a mnemonic: 9, 25 or 41 for the suffix 1, 2 or 3 of a \<^verbatim>\<open>DELTAP\<close> or
  \<^verbatim>\<open>DELTAC\<close> mnemonic; the short spellings \<^verbatim>\<open>DLTP\<close> and \<^verbatim>\<open>DLTC\<close> subtract nothing.
\<close>

definition generation :: "string \<Rightarrow> int \<Rightarrow> bool" where
  "generation m b =
     (if startswith m ''DELTAP'' \<or> startswith m ''DELTAC''
      then (endswith m ''1'' \<and> b = 9) \<or> (endswith m ''2'' \<and> b = 25) \<or> (endswith m ''3'' \<and> b = 41)
      else b = 0)"

text \<open>The round trip through the two nibbles, for a base \<open>b\<close>.\<close>

definition nibble_roundtrip :: "int \<Rightarrow> int \<Rightarrow> int \<Rightarrow> bool" where
  "nibble_roundtrip b rel_ppem step_no =
     (decode_step (low_nibble (pack (rel_ppem - b) step_no)) = step_no \<and>
      high_nibble (pack (rel_ppem - b) step_no) + b = rel_ppem)"

section \<open>The operand sequence of a delta instruction, as specified\<close>

text \<open>
  The specification's description of the delta operands, written without the
  functions of the code.  The triples are taken in reverse; the point indexes are
  kept in the order in which they first occur there; the \<open>(rel_ppem, step_no)\<close> pairs
  of one point are sorted descending; the emitted sequence is the number of triples,
  then for each triple the point index and the packed value.

  Descending by \<open>(rel_ppem, step_no)\<close>: a pair stands before another when its
  \<open>rel_ppem\<close> is greater, or when the two are equal and its \<open>step_no\<close> is not smaller.
  \<open>sort_descending\<close> sorts by insertion into that order.
\<close>

definition descending_order :: "int \<times> int \<Rightarrow> int \<times> int \<Rightarrow> bool" where
  "descending_order a b = (fst b < fst a \<or> (fst a = fst b \<and> snd b \<le> snd a))"

fun insert_descending :: "int \<times> int \<Rightarrow> (int \<times> int) list \<Rightarrow> (int \<times> int) list" where
  "insert_descending x [] = [x]"
| "insert_descending x (y # ys) =
     (if descending_order x y then x # y # ys else y # insert_descending x ys)"

fun sort_descending :: "(int \<times> int) list \<Rightarrow> (int \<times> int) list" where
  "sort_descending [] = []"
| "sort_descending (x # xs) = insert_descending x (sort_descending xs)"

fun first_occurrences :: "int list \<Rightarrow> int list" where
  "first_occurrences [] = []"
| "first_occurrences (k # ks) = k # filter (\<lambda>k'. k' \<noteq> k) (first_occurrences ks)"

definition specs_of :: "int \<Rightarrow> (int \<times> int \<times> int) list \<Rightarrow> (int \<times> int) list" where
  "specs_of p xs = map snd (filter (\<lambda>x. fst x = p) xs)"

definition delta_groups :: "(int \<times> int \<times> int) list \<Rightarrow> (int \<times> (int \<times> int) list) list" where
  "delta_groups ds =
     map (\<lambda>p. (p, sort_descending (specs_of p (rev ds)))) (first_occurrences (map fst (rev ds)))"

definition delta_emission :: "int \<Rightarrow> (int \<times> int \<times> int) list \<Rightarrow> int list" where
  "delta_emission b ds =
     int (length ds) #
     concat (map (\<lambda>(p, specs). concat (map (\<lambda>(rel_ppem, step_no). [p, pack (rel_ppem - b) step_no]) specs))
                 (delta_groups ds))"

section \<open>Scope markers\<close>

text \<open>
  The nesting of the \<^verbatim>\<open>#BEGIN\<close> and \<^verbatim>\<open>#END\<close> markers of a token sequence, read off
  the mnemonics alone: \<open>Some n\<close> when \<open>n\<close> scopes opened by \<^verbatim>\<open>#BEGIN\<close> are still open,
  \<open>None\<close> once an \<^verbatim>\<open>#END\<close> had no \<^verbatim>\<open>#BEGIN\<close> to close.  The markers are balanced when
  the sequence ends at \<open>Some 0\<close>.
\<close>

fun nesting :: "nat option \<Rightarrow> token list \<Rightarrow> nat option" where
  "nesting d [] = d"
| "nesting d (t # ts) =
     (if mnemonic t = ''#BEGIN'' then nesting (map_option Suc d) ts
      else if mnemonic t = ''#END'' then
        nesting (case d of None \<Rightarrow> None | Some 0 \<Rightarrow> None | Some (Suc n) \<Rightarrow> Some n) ts
      else nesting d ts)"

definition balanced :: "token list \<Rightarrow> bool" where
  "balanced toks = (nesting (Some 0) toks = Some 0)"

text \<open>
  The shape of \<^verbatim>\<open>push_indexes\<close> for a given nesting: the root index 0 below the
  indexes of the open scopes, none of which is 0; without the root, no 0 at all.
\<close>

definition scopes_inv :: "state \<Rightarrow> nat option \<Rightarrow> bool" where
  "scopes_inv s d =
     (0 < pos s \<and>
      (case d of
         None \<Rightarrow> 0 \<notin> set (push_indexes s)
       | Some n \<Rightarrow> \<exists>rest. push_indexes s = 0 # rest \<and> length rest = n \<and> 0 \<notin> set rest))"

text \<open>The mnemonics the loop handles before the delta and the ordinary instructions.\<close>

definition marker_names :: "string list" where
  "marker_names = [''OVERLAP'', ''USEMYMETRICS'', ''SCALEDCOMPONENTOFFSET'', ''UNSCALEDCOMPONENTOFFSET'',
               ''OFFSET'', ''ANCHOR'', ''#PUSHON'', ''#PUSHOFF'', ''#BEGIN'', ''#END'', ''#PUSH'']"

section \<open>Tagged lines\<close>



text \<open>
  Every index on \<^verbatim>\<open>push_indexes\<close> names a deque of the stream, no index twice, and
  \<^verbatim>\<open>pos\<close> is the length of the stream.
\<close>

definition open_stacks :: "state \<Rightarrow> bool" where
  "open_stacks s =
     (pos s = length (stream s) \<and> distinct (push_indexes s) \<and>
      (\<forall>i \<in> set (push_indexes s). i < length (stream s) \<and> (\<exists>st. stream s ! i = Stack st)))"

section \<open>Operands and lines of a token sequence\<close>

text \<open>
  What a token sequence without scope markers contributes, read off the tokens.
  \<open>contribution\<close> is the operand list one token puts in front of the open deque: its
  stack items for an ordinary instruction in push-on mode, the encoded values for a
  delta instruction, nothing for the markers and the component declarations.
  \<open>mode_after\<close> and \<open>base_after\<close> follow \<^verbatim>\<open>push_on\<close> and \<^verbatim>\<open>delta_base\<close> from token to
  token.  \<open>pushed\<close> lists the contributions in the order of the tokens;
  \<open>root_operands\<close> puts the later contributions first.  \<open>instruction_lines\<close> are the
  lines of the tokens that emit one, in the order of the tokens.
\<close>

definition contribution :: "bool \<Rightarrow> int option \<Rightarrow> token \<Rightarrow> int list" where
  "contribution on db t =
     (if mnemonic t \<in> set marker_names then []
      else if is_delta (mnemonic t) then
        (case push_deltas (mnemonic t) (deltas t) db [] of Inl e \<Rightarrow> [] | Inr (db', ops) \<Rightarrow> ops)
      else if on then stack_items t else [])"

definition mode_after :: "bool \<Rightarrow> token \<Rightarrow> bool" where
  "mode_after on t =
     (if mnemonic t = ''#PUSHON'' then True else if mnemonic t = ''#PUSHOFF'' then False else on)"

definition base_after :: "int option \<Rightarrow> token \<Rightarrow> int option" where
  "base_after db t =
     (if is_delta (mnemonic t) then
        (case push_deltas (mnemonic t) (deltas t) db [] of Inl e \<Rightarrow> db | Inr (db', ops) \<Rightarrow> db')
      else db)"

fun pushed :: "bool \<Rightarrow> int option \<Rightarrow> token list \<Rightarrow> int list list" where
  "pushed on db [] = []"
| "pushed on db (t # ts) = contribution on db t # pushed (mode_after on t) (base_after db t) ts"

definition root_operands :: "token list \<Rightarrow> int list" where
  "root_operands toks = concat (rev (pushed True None toks))"

definition emits_line :: "token \<Rightarrow> bool" where
  "emits_line t = (mnemonic t = ''ANCHOR'' \<or> mnemonic t \<notin> set marker_names)"

definition line_of :: "token \<Rightarrow> string" where
  "line_of t =
     instruction_line (if is_delta (mnemonic t) then canonical (mnemonic t) else mnemonic t) (flags t)"

definition instruction_lines :: "token list \<Rightarrow> string list" where
  "instruction_lines toks = map line_of (filter emits_line toks)"

definition scope_free :: "token \<Rightarrow> bool" where
  "scope_free t = (mnemonic t \<noteq> ''#BEGIN'' \<and> mnemonic t \<noteq> ''#END'' \<and> mnemonic t \<noteq> ''#PUSH'')"

section \<open>Composite information: \<^verbatim>\<open>check_composite_info\<close> and \<^verbatim>\<open>set_components_flags\<close>\<close>

text \<open>
  The component flags of the \<^verbatim>\<open>glyf\<close> table, with the values
  \<^verbatim>\<open>fontTools.ttLib.tables._g_l_y_f\<close> gives them.
\<close>

definition USE_MY_METRICS :: int where "USE_MY_METRICS = 0x0200"
definition ROUND_XY_TO_GRID :: int where "ROUND_XY_TO_GRID = 0x0004"
definition SCALED_COMPONENT_OFFSET :: int where "SCALED_COMPONENT_OFFSET = 0x0800"
definition UNSCALED_COMPONENT_OFFSET :: int where "UNSCALED_COMPONENT_OFFSET = 0x1000"

text \<open>
  A component of the outline (\<^verbatim>\<open>glyph.components\<close>): it has either \<^verbatim>\<open>firstPt\<close> and
  \<^verbatim>\<open>secondPt\<close> or \<^verbatim>\<open>x\<close> and \<^verbatim>\<open>y\<close>.  The field \<^verbatim>\<open>flags\<close> is \<open>comp_flags\<close> here.
\<close>

datatype placement = Points int int | XY int int

record glyph_component =
  glyphName :: string
  comp_flags :: int
  placement :: placement

text \<open>
  The \<^verbatim>\<open>VTTLibInvalidComposite\<close> errors by message, with the component number and the
  glyph name they carry, and the other exceptions the two functions can raise.
\<close>

datatype composite_error =
    IncorrectNumber string nat nat
  | IncorrectIndex nat string nat int
  | ExpectedAnchor nat string
  | ExpectedOffset nat string
  | WrongAnchorPoint nat string int int
  | WrongXOffset nat string int int
  | WrongYOffset nat string int int
  | WrongRoundFlag nat string
  | WrongUseMyMetrics nat string
  | WrongScaledFlag nat string
  | WrongUnscaledFlag nat string
  | NotInGlyphOrder string
  | NoSuchAttribute string
  | LengthAssertion
  | ListIndexError

text \<open>\<^verbatim>\<open>list.index\<close>; \<open>None\<close> stands for its \<^verbatim>\<open>ValueError\<close>.\<close>

fun list_index :: "'a list \<Rightarrow> 'a \<Rightarrow> nat option" where
  "list_index [] a = None"
| "list_index (x # xs) a = (if x = a then Some 0 else map_option Suc (list_index xs a))"

fun vtt_index :: "component \<Rightarrow> int" where
  "vtt_index (OffsetComponent index x y rtg umm so) = index"
| "vtt_index (AnchorComponent index first second umm so) = index"

fun vtt_use_my_metrics :: "component \<Rightarrow> bool" where
  "vtt_use_my_metrics (OffsetComponent index x y rtg umm so) = umm"
| "vtt_use_my_metrics (AnchorComponent index first second umm so) = umm"

fun vtt_scaled_offset :: "component \<Rightarrow> bool option" where
  "vtt_scaled_offset (OffsetComponent index x y rtg umm so) = so"
| "vtt_scaled_offset (AnchorComponent index first second umm so) = so"

text \<open>
  \<^verbatim>\<open>comp.flags & FLAG\<close> as a truth value, and the test
  \<^verbatim>\<open>(a and not b) or (not a and b)\<close> used for every flag.
\<close>

definition is_set :: "int \<Rightarrow> int \<Rightarrow> bool" where
  "is_set fl b = (fl AND b \<noteq> 0)"

definition flag_differs :: "bool \<Rightarrow> bool \<Rightarrow> bool" where
  "flag_differs in_outline declared = ((in_outline \<and> \<not> declared) \<or> (\<not> in_outline \<and> declared))"

text \<open>Lines 364 to 398: the type of the component, its points or offsets, the rounding flag.\<close>

definition check_placement ::
  "string \<Rightarrow> bool \<Rightarrow> nat \<Rightarrow> glyph_component \<Rightarrow> component \<Rightarrow> composite_error + unit" where
  "check_placement name check_flags i gcomp vttcomp =
     (case placement gcomp of
        Points firstPt secondPt \<Rightarrow>
          (case vttcomp of
             OffsetComponent index x y rtg umm so \<Rightarrow> Inl (ExpectedAnchor i name)
           | AnchorComponent index first second umm so \<Rightarrow>
               if firstPt \<noteq> first then Inl (WrongAnchorPoint i name firstPt first)
               else if secondPt \<noteq> second then Inl (WrongAnchorPoint i name secondPt second)
               else Inr ())
      | XY cx cy \<Rightarrow>
          (case vttcomp of
             AnchorComponent index first second umm so \<Rightarrow> Inl (ExpectedOffset i name)
           | OffsetComponent index x y rtg umm so \<Rightarrow>
               if cx \<noteq> x then Inl (WrongXOffset i name cx x)
               else if cy \<noteq> y then Inl (WrongYOffset i name cy y)
               else if check_flags \<and> flag_differs (is_set (comp_flags gcomp) ROUND_XY_TO_GRID) rtg
                 then Inl (WrongRoundFlag i name)
               else Inr ()))"

text \<open>
  The body of the loop, lines 357 to 419.  \<^verbatim>\<open>not vttcomp.scaled_offset\<close> is true for
  \<^verbatim>\<open>None\<close> and \<^verbatim>\<open>False\<close>, so \<^verbatim>\<open>scaled_offset\<close> counts as declared when it is \<^verbatim>\<open>True\<close>.
\<close>

definition check_component ::
  "string \<Rightarrow> string list \<Rightarrow> bool \<Rightarrow> nat \<Rightarrow> glyph_component \<Rightarrow> component \<Rightarrow> composite_error + unit" where
  "check_component name glyph_order check_flags i gcomp vttcomp =
     (case list_index glyph_order (glyphName gcomp) of
        None \<Rightarrow> Inl (NotInGlyphOrder (glyphName gcomp))
      | Some index \<Rightarrow>
          if vtt_index vttcomp \<noteq> int index then Inl (IncorrectIndex i name index (vtt_index vttcomp))
          else case check_placement name check_flags i gcomp vttcomp of
                 Inl e \<Rightarrow> Inl e
               | Inr u \<Rightarrow>
                   if \<not> check_flags then Inr ()
                   else if flag_differs (is_set (comp_flags gcomp) USE_MY_METRICS) (vtt_use_my_metrics vttcomp)
                     then Inl (WrongUseMyMetrics i name)
                   else if flag_differs (is_set (comp_flags gcomp) SCALED_COMPONENT_OFFSET)
                             (vtt_scaled_offset vttcomp = Some True)
                     then Inl (WrongScaledFlag i name)
                   else if flag_differs (is_set (comp_flags gcomp) UNSCALED_COMPONENT_OFFSET)
                             (vtt_scaled_offset vttcomp = Some True)
                     then Inl (WrongUnscaledFlag i name)
                   else Inr ())"

fun check_from ::
  "string \<Rightarrow> string list \<Rightarrow> bool \<Rightarrow> nat \<Rightarrow> glyph_component list \<Rightarrow> component list \<Rightarrow> composite_error + unit" where
  "check_from name glyph_order check_flags i [] vtts = Inr ()"
| "check_from name glyph_order check_flags i (gcomp # gcomps) vtts =
     (if i \<ge> length vtts then Inl ListIndexError
      else case check_component name glyph_order check_flags i gcomp (vtts ! i) of
             Inl e \<Rightarrow> Inl e
           | Inr u \<Rightarrow> check_from name glyph_order check_flags (Suc i) gcomps vtts)"

definition check_composite_info ::
  "string \<Rightarrow> glyph_component list \<Rightarrow> component list \<Rightarrow> string list \<Rightarrow> bool \<Rightarrow> composite_error + unit" where
  "check_composite_info name glyph_components vtt_components glyph_order check_flags =
     (if length vtt_components \<noteq> length glyph_components
      then Inl (IncorrectNumber name (length glyph_components) (length vtt_components))
      else check_from name glyph_order check_flags 0 glyph_components vtt_components)"

text \<open>\<^verbatim>\<open>set_components_flags\<close>, lines 434 to 453.  An anchor component has no \<^verbatim>\<open>round_to_grid\<close>.\<close>

definition set_flag :: "bool \<Rightarrow> int \<Rightarrow> int \<Rightarrow> int" where
  "set_flag on b fl = (if on then fl OR b else fl AND NOT b)"

definition set_component_flags :: "nat \<Rightarrow> glyph_component \<Rightarrow> component \<Rightarrow> composite_error + glyph_component" where
  "set_component_flags vtt_version gcomp vttcomp =
     (case vttcomp of
        AnchorComponent index first second umm so \<Rightarrow> Inl (NoSuchAttribute ''round_to_grid'')
      | OffsetComponent index x y rtg umm so \<Rightarrow>
          (let fl = set_flag rtg ROUND_XY_TO_GRID (set_flag umm USE_MY_METRICS (comp_flags gcomp)) in
           if vtt_version < 6 \<or> so = None then Inr (gcomp\<lparr>comp_flags := fl\<rparr>)
           else if so = Some True
             then Inr (gcomp\<lparr>comp_flags := (fl OR SCALED_COMPONENT_OFFSET) AND NOT UNSCALED_COMPONENT_OFFSET\<rparr>)
           else Inr (gcomp\<lparr>comp_flags := (fl OR UNSCALED_COMPONENT_OFFSET) AND NOT SCALED_COMPONENT_OFFSET\<rparr>)))"

fun set_flags_from ::
  "nat \<Rightarrow> nat \<Rightarrow> glyph_component list \<Rightarrow> component list \<Rightarrow> composite_error + glyph_component list" where
  "set_flags_from vtt_version i [] vtts = Inr []"
| "set_flags_from vtt_version i (gcomp # gcomps) vtts =
     (if i \<ge> length vtts then Inl ListIndexError
      else case set_component_flags vtt_version gcomp (vtts ! i) of
             Inl e \<Rightarrow> Inl e
           | Inr gcomp' \<Rightarrow>
               (case set_flags_from vtt_version (Suc i) gcomps vtts of
                  Inl e \<Rightarrow> Inl e
                | Inr gcomps' \<Rightarrow> Inr (gcomp' # gcomps')))"

definition set_components_flags ::
  "glyph_component list \<Rightarrow> component list \<Rightarrow> nat \<Rightarrow> composite_error + glyph_component list" where
  "set_components_flags glyph_components vtt_components vtt_version =
     (if length vtt_components \<noteq> length glyph_components then Inl LengthAssertion
      else set_flags_from vtt_version 0 glyph_components vtt_components)"

section \<open>Storing and reading a program: \<^verbatim>\<open>set_vtt_program\<close> and \<^verbatim>\<open>get_vtt_program\<close>\<close>

text \<open>
  The text is a byte string here (the source encodes it as UTF-8 before anything
  else).  \<^verbatim>\<open>bytes.splitlines()\<close> ends a line at LF, CR or CR LF; a last line without
  terminator counts, an empty rest does not.  \<^verbatim>\<open>bytes.rstrip()\<close> removes trailing
  space, TAB, LF, CR, VT and FF.
\<close>

definition LF :: char where "LF = CHR 0x0A"
definition CR :: char where "CR = CHR 0x0D"















section \<open>The pattern \<^verbatim>\<open>composite_info_RE\<close> and \<^verbatim>\<open>write_composite_info\<close>\<close>

text \<open>
  Matchers take the text at the current position and return the text left after the
  match, or \<open>None\<close>.  \<open>literal\<close> matches a fixed string; \<open>orelse\<close> is the
  alternation \<^verbatim>\<open>|\<close>, which takes the first alternative that matches; \<open>opt_eol\<close> is
  \<^verbatim>\<open>[\r\n]?\<close>.
\<close>

fun literal :: "string \<Rightarrow> string \<Rightarrow> string option" where
  "literal [] s = Some s"
| "literal (p # ps) [] = None"
| "literal (p # ps) (c # cs) = (if p = c then literal ps cs else None)"

definition orelse :: "string option \<Rightarrow> string option \<Rightarrow> string option" where
  "orelse a b = (case a of Some r \<Rightarrow> Some r | None \<Rightarrow> b)"

definition opt_eol :: "string \<Rightarrow> string" where
  "opt_eol s = (case s of [] \<Rightarrow> [] | c # cs \<Rightarrow> if c = CR \<or> c = LF then cs else s)"

text \<open>
  \<^verbatim>\<open>(?:, *-?[0-9]+){3}\<close>: a comma, spaces, an optional minus and digits, three times.
  Every part is greedy, and taking less never lets the rest match where taking all
  does not: after fewer spaces or digits the next character is again a space or a
  digit, which is no minus, digit or comma.
\<close>

definition isdigit :: "char \<Rightarrow> bool" where
  "isdigit c = (c \<in> set ''0123456789'')"

definition skip_spaces :: "string \<Rightarrow> string" where
  "skip_spaces s = dropWhile (\<lambda>c. c = CHR '' '') s"

definition opt_minus :: "string \<Rightarrow> string" where
  "opt_minus s = (case s of [] \<Rightarrow> [] | c # cs \<Rightarrow> if c = CHR ''-'' then cs else s)"

definition digits :: "string \<Rightarrow> string option" where
  "digits s = (if takeWhile isdigit s = [] then None else Some (dropWhile isdigit s))"

definition number_arg :: "string \<Rightarrow> string option" where
  "number_arg s =
     (case s of
        [] \<Rightarrow> None
      | c # cs \<Rightarrow> if c = CHR '','' then digits (opt_minus (skip_spaces cs)) else None)"

definition three_args :: "string \<Rightarrow> string option" where
  "three_args s = Option.bind (Option.bind (number_arg s) number_arg) number_arg"

text \<open>\<^verbatim>\<open>[rR]\<close>.\<close>

definition rounding_letter :: "string \<Rightarrow> string option" where
  "rounding_letter s =
     (case s of [] \<Rightarrow> None | c # cs \<Rightarrow> if c = CHR ''r'' \<or> c = CHR ''R'' then Some cs else None)"

text \<open>
  The five patterns of lines 422 to 426, each as its body followed by \<^verbatim>\<open>[\r\n]?\<close>.
  The anchor \<^verbatim>\<open>^\<close> is left to the scanner, which knows where lines start.
\<close>

definition use_my_metrics_body :: "string \<Rightarrow> string option" where
  "use_my_metrics_body s = literal ''USEMYMETRICS[]'' s"

definition overlap_body :: "string \<Rightarrow> string option" where
  "overlap_body s = literal ''OVERLAP[]'' s"

definition scaled_component_offset_body :: "string \<Rightarrow> string option" where
  "scaled_component_offset_body s =
     orelse (Option.bind (literal ''UN'' s) (literal ''SCALEDCOMPONENTOFFSET[]''))
            (literal ''SCALEDCOMPONENTOFFSET[]'' s)"

definition anchor_body :: "string \<Rightarrow> string option" where
  "anchor_body s = Option.bind (literal ''ANCHOR[]'' s) three_args"

definition offset_body :: "string \<Rightarrow> string option" where
  "offset_body s =
     Option.bind (Option.bind (Option.bind (literal ''OFFSET['' s) rounding_letter) (literal '']''))
       three_args"

definition use_my_metrics_RE :: "string \<Rightarrow> string option" where
  "use_my_metrics_RE s = map_option opt_eol (use_my_metrics_body s)"

definition overlap_RE :: "string \<Rightarrow> string option" where
  "overlap_RE s = map_option opt_eol (overlap_body s)"

definition scaled_component_offset_RE :: "string \<Rightarrow> string option" where
  "scaled_component_offset_RE s = map_option opt_eol (scaled_component_offset_body s)"

definition anchor_RE :: "string \<Rightarrow> string option" where
  "anchor_RE s = map_option opt_eol (anchor_body s)"

definition offset_RE :: "string \<Rightarrow> string option" where
  "offset_RE s = map_option opt_eol (offset_body s)"

text \<open>Lines 427 to 431: the alternation of the five patterns, in their order.\<close>

definition composite_info_RE :: "string \<Rightarrow> string option" where
  "composite_info_RE s =
     orelse (use_my_metrics_RE s)
       (orelse (overlap_RE s)
          (orelse (scaled_component_offset_RE s)
             (orelse (anchor_RE s) (offset_RE s))))"

text \<open>The alternation of the five bodies, without the line end.\<close>

definition declaration_body :: "string \<Rightarrow> string option" where
  "declaration_body s =
     orelse (use_my_metrics_body s)
       (orelse (overlap_body s)
          (orelse (scaled_component_offset_body s)
             (orelse (anchor_body s) (offset_body s))))"

text \<open>What a matcher returns is a proper rest of its input: the scanner terminates.\<close>

lemma literal_Some: "(literal p s = Some r) = (s = p @ r)"
  by (induction p s rule: literal.induct) auto

lemma orelse_Some: "orelse a b = Some r \<Longrightarrow> a = Some r \<or> b = Some r"
  by (cases a) (auto simp: orelse_def)

lemma map_option_orelse: "map_option f (orelse a b) = orelse (map_option f a) (map_option f b)"
  by (cases a) (auto simp: orelse_def)

lemma composite_info_RE_body: "composite_info_RE s = map_option opt_eol (declaration_body s)"
  by (simp add: composite_info_RE_def declaration_body_def map_option_orelse
      use_my_metrics_RE_def overlap_RE_def scaled_component_offset_RE_def anchor_RE_def offset_RE_def)

lemma opt_eol_suffix: "\<exists>a. s = a @ opt_eol s"
  by (cases s) (auto simp: opt_eol_def)

lemma skip_spaces_suffix: "\<exists>a. s = a @ skip_spaces s"
  unfolding skip_spaces_def by (metis takeWhile_dropWhile_id)

lemma opt_minus_suffix: "\<exists>a. s = a @ opt_minus s"
  by (cases s) (auto simp: opt_minus_def)

lemma digits_suffix: "digits s = Some r \<Longrightarrow> \<exists>a. s = a @ r"
  by (metis digits_def option.distinct(1) option.inject takeWhile_dropWhile_id)

lemma number_arg_suffix: "number_arg s = Some r \<Longrightarrow> \<exists>a. a \<noteq> [] \<and> s = a @ r"
proof -
  assume n: "number_arg s = Some r"
  define x1 where "x1 = skip_spaces (tl s)"
  define x2 where "x2 = opt_minus x1"
  from n have s: "s = CHR '','' # tl s" and d: "digits x2 = Some r"
    by (cases s; simp add: number_arg_def x1_def x2_def split: if_splits)+
  obtain a1 where a1: "tl s = a1 @ x1" unfolding x1_def using skip_spaces_suffix by blast
  obtain a2 where a2: "x1 = a2 @ x2" unfolding x2_def using opt_minus_suffix by blast
  obtain a3 where a3: "x2 = a3 @ r" using digits_suffix [OF d] by blast
  have "CHR '','' # tl s = (CHR '','' # a1 @ a2 @ a3) @ r"
    by (simp only: a1 a2 a3 append_Cons append_assoc)
  with s have "s = (CHR '','' # a1 @ a2 @ a3) @ r" by simp
  then show ?thesis by blast
qed

lemma three_args_suffix: "three_args s = Some r \<Longrightarrow> \<exists>a. a \<noteq> [] \<and> s = a @ r"
proof -
  assume t: "three_args s = Some r"
  obtain r1 where r1: "number_arg s = Some r1"
    using t by (cases "number_arg s") (simp_all add: three_args_def)
  obtain r2 where r2: "number_arg r1 = Some r2"
    using t r1 by (cases "number_arg r1") (simp_all add: three_args_def)
  have r3: "number_arg r2 = Some r" using t r1 r2 by (simp add: three_args_def)
  note n = r1 r2 r3
  obtain a1 where a1: "a1 \<noteq> []" "s = a1 @ r1" using number_arg_suffix [OF n(1)] by blast
  obtain a2 where a2: "r1 = a2 @ r2" using number_arg_suffix [OF n(2)] by blast
  obtain a3 where a3: "r2 = a3 @ r" using number_arg_suffix [OF n(3)] by blast
  have "s = (a1 @ a2 @ a3) @ r" by (simp only: a1(2) a2 a3 append_assoc)
  moreover have "a1 @ a2 @ a3 \<noteq> []" using a1(1) by simp
  ultimately have "a1 @ a2 @ a3 \<noteq> [] \<and> s = (a1 @ a2 @ a3) @ r" by (rule conjI [rotated])
  then show ?thesis by (rule exI)
qed

lemma rounding_letter_Some: "rounding_letter s = Some r \<Longrightarrow> \<exists>c. s = c # r"
  by (cases s) (auto simp: rounding_letter_def split: if_splits)

lemma declaration_body_suffix: "declaration_body s = Some r \<Longrightarrow> \<exists>a. a \<noteq> [] \<and> s = a @ r"
proof -
  assume "declaration_body s = Some r"
  then consider "use_my_metrics_body s = Some r" | "overlap_body s = Some r"
    | "scaled_component_offset_body s = Some r" | "anchor_body s = Some r" | "offset_body s = Some r"
    unfolding declaration_body_def by (blast dest: orelse_Some)
  then show ?thesis
  proof cases
    case 1
    then have "s = ''USEMYMETRICS[]'' @ r" by (simp add: use_my_metrics_body_def literal_Some)
    then show ?thesis by blast
  next
    case 2
    then have "s = ''OVERLAP[]'' @ r" by (simp add: overlap_body_def literal_Some)
    then show ?thesis by blast
  next
    case 3
    then have "s = ''UNSCALEDCOMPONENTOFFSET[]'' @ r \<or> s = ''SCALEDCOMPONENTOFFSET[]'' @ r"
      by (auto simp: scaled_component_offset_body_def literal_Some Option.bind_eq_Some_conv
          dest!: orelse_Some)
    then show ?thesis by blast
  next
    case 4
    then obtain u where u: "s = ''ANCHOR[]'' @ u" "three_args u = Some r"
      by (auto simp: anchor_body_def literal_Some Option.bind_eq_Some_conv)
    obtain a where "u = a @ r" using three_args_suffix [OF u(2)] by blast
    then have "s = (''ANCHOR[]'' @ a) @ r" using u(1) by simp
    then show ?thesis by blast
  next
    case 5
    then obtain c u where u: "s = ''OFFSET['' @ c # '']'' @ u" "three_args u = Some r"
      by (auto simp: offset_body_def literal_Some Option.bind_eq_Some_conv dest!: rounding_letter_Some)
    obtain a where "u = a @ r" using three_args_suffix [OF u(2)] by blast
    then have "s = (''OFFSET['' @ c # '']'' @ a) @ r" using u(1) by simp
    then show ?thesis by blast
  qed
qed

lemma composite_info_RE_suffix: "composite_info_RE s = Some r \<Longrightarrow> \<exists>a. a \<noteq> [] \<and> s = a @ r"
proof -
  assume "composite_info_RE s = Some r"
  then obtain y where y: "declaration_body s = Some y" "r = opt_eol y"
    by (auto simp: composite_info_RE_body)
  obtain a where a: "a \<noteq> []" "s = a @ y" using declaration_body_suffix [OF y(1)] by blast
  obtain b where "y = b @ r" using opt_eol_suffix [of y] y(2) by auto
  then have "s = (a @ b) @ r" using a(2) by simp
  then show ?thesis using a(1) by blast
qed

lemma composite_info_RE_length: "composite_info_RE s = Some r \<Longrightarrow> length r < length s"
  using composite_info_RE_suffix [of s r] by auto

text \<open>
  \<^verbatim>\<open>composite_info_RE.finditer(data)\<close> together with the loop of lines 459 to 462.
  \<open>bol\<close> says whether the position starts a line (the start of the text, or just
  after a LF: \<^verbatim>\<open>re.MULTILINE\<close>); \<open>gap\<close> is the text since the last match,
  \<^verbatim>\<open>data[last:start]\<close>.  The result lists every match with the gap in front of it,
  and the text after the last match, \<^verbatim>\<open>data[last:]\<close>.  A match is never empty, so the
  search goes on right behind it.
\<close>

function scan :: "bool \<Rightarrow> string \<Rightarrow> string \<Rightarrow> (string \<times> string) list \<times> string" where
  "scan bol gap s =
     (if s = [] then ([], gap)
      else case (if bol then composite_info_RE s else None) of
             Some rest \<Rightarrow>
               (let m = take (length s - length rest) s;
                    (ms, tail) = scan (last m = LF) [] rest
                in ((gap, m) # ms, tail))
           | None \<Rightarrow> scan (hd s = LF) (gap @ [hd s]) (tl s))"
  by pat_completeness auto
termination
proof (relation "measure (\<lambda>(bol, gap, s). length s)")
  show "wf (measure (\<lambda>(bol, gap, s). length s))" by simp
next
  fix bol :: bool and gap s :: string and rest m
  assume "s \<noteq> []" and "(if bol then composite_info_RE s else None) = Some rest"
  then have "composite_info_RE s = Some rest" by (simp split: if_splits)
  then have "length rest < length s" by (rule composite_info_RE_length)
  then show "((last m = LF, [], rest), (bol, gap, s)) \<in> measure (\<lambda>(bol, gap, s). length s)"
    by simp
next
  fix bol :: bool and gap s :: string
  assume "s \<noteq> []"
  then show "((hd s = LF, gap @ [hd s], tl s), (bol, gap, s)) \<in> measure (\<lambda>(bol, gap, s). length s)"
    by simp
qed

declare scan.simps [simp del]

text \<open>
  Lines 466 to 482: the declarations of one component, and of all of them.
  \<^verbatim>\<open>glyph_order.index\<close> raises when the name is missing.
\<close>

definition component_instructions ::
  "string list \<Rightarrow> nat \<Rightarrow> glyph_component \<Rightarrow> composite_error + string list" where
  "component_instructions glyph_order vtt_version gcomp =
     (let umm = (if is_set (comp_flags gcomp) USE_MY_METRICS then [''USEMYMETRICS[]'' @ [LF]] else []);
          sc = (if vtt_version \<ge> 6 then
                  (if is_set (comp_flags gcomp) SCALED_COMPONENT_OFFSET
                   then [''SCALEDCOMPONENTOFFSET[]'' @ [LF]] else []) @
                  (if is_set (comp_flags gcomp) UNSCALED_COMPONENT_OFFSET
                   then [''UNSCALEDCOMPONENTOFFSET[]'' @ [LF]] else [])
                else [])
      in case list_index glyph_order (glyphName gcomp) of
           None \<Rightarrow> Inl (NotInGlyphOrder (glyphName gcomp))
         | Some index \<Rightarrow>
             (case placement gcomp of
                Points firstPt secondPt \<Rightarrow>
                  Inr (umm @ sc @
                       [''ANCHOR[], '' @ str_int (int index) @ '', '' @ str_int firstPt @ '', '' @
                        str_int secondPt @ [LF]])
              | XY x y \<Rightarrow>
                  Inr (umm @ sc @
                       [''OFFSET['' @ (if is_set (comp_flags gcomp) ROUND_XY_TO_GRID then ''R'' else ''r'') @
                        ''], '' @ str_int (int index) @ '', '' @ str_int x @ '', '' @ str_int y @ [LF]])))"

fun instructions_of ::
  "string list \<Rightarrow> nat \<Rightarrow> glyph_component list \<Rightarrow> composite_error + string list" where
  "instructions_of glyph_order vtt_version [] = Inr []"
| "instructions_of glyph_order vtt_version (gcomp # gcomps) =
     (case component_instructions glyph_order vtt_version gcomp of
        Inl e \<Rightarrow> Inl e
      | Inr ls \<Rightarrow>
          (case instructions_of glyph_order vtt_version gcomps of
             Inl e \<Rightarrow> Inl e
           | Inr ls' \<Rightarrow> Inr (ls @ ls')))"

text \<open>
  \<^verbatim>\<open>write_composite_info(glyph, glyph_order, data, vtt_version)\<close>: the head collects
  the gaps, the tail is the text after the last match.
\<close>

definition write_composite_info ::
  "glyph_component list \<Rightarrow> string list \<Rightarrow> string \<Rightarrow> nat \<Rightarrow> composite_error + (string \<times> string \<times> string)" where
  "write_composite_info glyph_components glyph_order data vtt_version =
     (let (ms, tail) = scan True [] data;
          head = concat (map fst ms)
      in case instructions_of glyph_order vtt_version glyph_components of
           Inl e \<Rightarrow> Inl e
         | Inr instructions \<Rightarrow> Inr (head, concat instructions, tail))"

text \<open>
  \<open>on_line y\<close> puts the line end and the following text \<open>y\<close> behind what a matcher left
  of a line.  A declaration line is a declaration body that fills its line.
\<close>

definition on_line :: "string \<Rightarrow> string option \<Rightarrow> string option" where
  "on_line y res = map_option (\<lambda>l'. l' @ LF # y) res"

definition declaration_line :: "string \<Rightarrow> bool" where
  "declaration_line l = (\<exists>b. l = b @ [LF] \<and> declaration_body b = Some [])"

section \<open>Properties of the delta packing\<close>

lemma pack_eq_add: "0 \<le> b \<Longrightarrow> b < 16 \<Longrightarrow> push_bit 4 (a::int) OR b = a * 16 + b"
proof -
  assume b: "0 \<le> b" "b < 16"
  have tb: "take_bit 4 b = b" using b by (simp add: take_bit_int_eq_self)
  have "push_bit 4 a + take_bit 4 b = push_bit 4 a OR take_bit 4 b"
    by (rule disjunctive_add) (auto simp: bit_simps)
  then show ?thesis using tb by (simp add: push_bit_eq_mult)
qed

lemma and_15_mod: "(x::int) AND 15 = x mod 16"
proof -
  have "x AND mask 4 = x mod 2 ^ 4" by (simp only: flip: take_bit_eq_mask take_bit_eq_mod)
  then show ?thesis by (simp add: mask_eq_exp_minus_1)
qed

lemma selector_range: "-8 \<le> s \<Longrightarrow> s \<le> 8 \<Longrightarrow> s \<noteq> 0 \<Longrightarrow> 0 \<le> selector s \<and> selector s < 16"
  by (auto simp: selector_def)

lemma pack_arith: "-8 \<le> s \<Longrightarrow> s \<le> 8 \<Longrightarrow> s \<noteq> 0 \<Longrightarrow> pack r s = r * 16 + selector s"
  unfolding pack_def using selector_range [of s] by (simp add: pack_eq_add)

lemma low_nibble_pack: "-8 \<le> s \<Longrightarrow> s \<le> 8 \<Longrightarrow> s \<noteq> 0 \<Longrightarrow> low_nibble (pack r s) = selector s"
  using selector_range [of s] by (simp add: low_nibble_def pack_arith and_15_mod)

lemma upper_bits_pack: "-8 \<le> s \<Longrightarrow> s \<le> 8 \<Longrightarrow> s \<noteq> 0 \<Longrightarrow> upper_bits (pack r s) = r"
  using selector_range [of s] by (simp add: upper_bits_def pack_arith drop_bit_eq_div)

lemma high_nibble_pack: "-8 \<le> s \<Longrightarrow> s \<le> 8 \<Longrightarrow> s \<noteq> 0 \<Longrightarrow> high_nibble (pack r s) = r mod 16"
  using upper_bits_pack [of s r] by (simp add: high_nibble_def upper_bits_def and_15_mod)

lemma decode_step_selector: "s \<noteq> 0 \<Longrightarrow> decode_step (selector s) = s"
  by (auto simp: decode_step_def selector_def)

lemma endswith_single: "endswith m [c] = (m \<noteq> [] \<and> last m = c)"
  by (cases m rule: rev_cases) (auto simp: endswith_def)

lemma subtract_base_generation:
  "generation m b \<Longrightarrow> \<exists>db'. subtract_base m db r = Inr (db', r - b)"
  by (auto simp: generation_def subtract_base_def endswith_single)

text \<open>
  Claim C2, as the code has it.  For a step number in \<open>-8..8\<close> other than 0 and any
  integer \<open>rel_ppem\<close>, the value the inner loop pushes for one delta spec decodes again:
  its low nibble gives back the step number, and the bits above the low nibble
  (\<^verbatim>\<open>packed >> 4\<close>) give back \<open>rel_ppem\<close> once the base the code subtracted is added.  The
  four-bit high nibble gives \<open>rel_ppem\<close> back exactly when \<open>rel_ppem - b\<close> lies in
  \<open>0..15\<close>.
\<close>

theorem delta_packing_decodes:
  assumes "-8 \<le> step_no" and "step_no \<le> 8" and "step_no \<noteq> 0" and "generation m b"
  shows "\<exists>db' packed.
           push_specs m p [(rel_ppem, step_no)] db st = Inr (db', packed # p # st) \<and>
           decode_step (low_nibble packed) = step_no \<and>
           upper_bits packed + b = rel_ppem \<and>
           (high_nibble packed + b = rel_ppem) = (b \<le> rel_ppem \<and> rel_ppem \<le> b + 15)"
proof -
  obtain db' where sb: "subtract_base m db rel_ppem = Inr (db', rel_ppem - b)"
    using subtract_base_generation [OF assms(4)] by blast
  let ?v = "pack (rel_ppem - b) step_no"
  have run: "push_specs m p [(rel_ppem, step_no)] db st = Inr (db', ?v # p # st)"
    by (simp add: sb)
  have lo: "decode_step (low_nibble ?v) = step_no"
    using assms(1-3) by (simp add: low_nibble_pack decode_step_selector)
  have up: "upper_bits ?v + b = rel_ppem"
    using assms(1-3) by (simp add: upper_bits_pack)
  have hi: "(high_nibble ?v + b = rel_ppem) = (b \<le> rel_ppem \<and> rel_ppem \<le> b + 15)"
  proof -
    have "high_nibble ?v = (rel_ppem - b) mod 16"
      using assms(1-3) by (simp add: high_nibble_pack)
    moreover have "((rel_ppem - b) mod 16 = rel_ppem - b) = (0 \<le> rel_ppem - b \<and> rel_ppem - b < 16)"
      by presburger
    ultimately show ?thesis by auto
  qed
  from run lo up hi show ?thesis by blast
qed

theorem delta_packing_decodes_witness:
  "push_specs ''DELTAP1'' 5 [(20, -3)] None [] = Inr (Some 9, [181, 5]) \<and>
   decode_step (low_nibble 181) = -3 \<and> upper_bits 181 + 9 = 20 \<and> high_nibble 181 + 9 = 20"
proof -
  have g: "generation ''DELTAP1'' 9"
    by (simp add: generation_def startswith_def endswith_def)
  have r: "push_specs ''DELTAP1'' 5 [(20, -3)] None [] = Inr (Some 9, [181, 5])"
    by (simp add: subtract_base_def startswith_def endswith_def pack_def selector_def)
  show ?thesis
    using delta_packing_decodes [of "-3" "''DELTAP1''" 9 5 20 None "[]", OF _ _ _ g] r
    by auto
qed

text \<open>
  Claim C2 as stated fails: with \<open>rel_ppem = 127\<close>, step 1 and \<^verbatim>\<open>DELTAP1\<close> the code
  pushes \<open>(118 << 4) | 8 = 1896\<close>; the high nibble of 1896 is 6, and \<open>6 + 9\<close> is not 127.
\<close>

theorem nibble_roundtrip_counterexample:
  "push_specs ''DELTAP1'' 5 [(127, 1)] None [] = Inr (Some 9, [1896, 5]) \<and>
   low_nibble 1896 = 8 \<and> high_nibble 1896 = 6 \<and> \<not> nibble_roundtrip 9 127 1"
  by (simp add: subtract_base_def startswith_def endswith_def pack_def selector_def
      nibble_roundtrip_def low_nibble_def high_nibble_def decode_step_def)

section \<open>The delta operands follow the specified sequence\<close>

text \<open>
  \<open>sort_descending\<close> returns its argument rearranged into descending order, and
  \<^verbatim>\<open>sorted(delta_specs, reverse=True)\<close> of the code returns the same list.
\<close>

lemma descending_order_ge: "descending_order a b = (b \<le> a)"
  by (auto simp: descending_order_def less_eq_prod_def)

lemma mset_insert_descending [simp]: "mset (insert_descending x ys) = add_mset x (mset ys)"
  by (induction ys) auto

lemma mset_sort_descending [simp]: "mset (sort_descending xs) = mset xs"
  by (induction xs) auto

lemma set_insert_descending [simp]: "set (insert_descending x ys) = insert x (set ys)"
  by (induction ys) auto

lemma sorted_insert_descending:
  "sorted_wrt descending_order ys \<Longrightarrow> sorted_wrt descending_order (insert_descending x ys)"
  by (induction ys) (auto simp: descending_order_def)

lemma sorted_sort_descending [simp]: "sorted_wrt descending_order (sort_descending xs)"
  by (induction xs) (auto intro: sorted_insert_descending)

lemma sorted_reverse_descending: "sorted_reverse xs = sort_descending xs"
proof -
  have "sorted_wrt (\<lambda>a b. b \<le> a) (sort_descending xs)"
    using sorted_sort_descending [of xs] by (simp add: descending_order_ge [abs_def])
  then have "sorted (rev (sort_descending xs))"
    by (simp add: sorted_wrt_rev)
  moreover have "mset (rev (sort_descending xs)) = mset xs" by simp
  ultimately have "sort xs = rev (sort_descending xs)"
    by (simp add: properties_for_sort)
  then show ?thesis by (simp add: sorted_reverse_def)
qed

lemma sorted_reverse_sorted: "sorted_wrt descending_order (sorted_reverse xs)"
  by (simp add: sorted_reverse_descending)

lemma sorted_reverse_mset: "mset (sorted_reverse xs) = mset xs"
  by (simp add: sorted_reverse_descending)

lemma delta_groups_points:
  "map fst (delta_groups ds) = first_occurrences (map fst (rev ds))"
  by (simp add: delta_groups_def comp_def)

lemma delta_groups_sorted:
  "(p, specs) \<in> set (delta_groups ds) \<Longrightarrow>
     sorted_wrt descending_order specs \<and> mset specs = mset (specs_of p (rev ds))"
  by (auto simp: delta_groups_def)

lemma set_first_occurrences [simp]: "set (first_occurrences ks) = set ks"
  by (induction ks) auto

lemma first_occurrences_snoc:
  "first_occurrences (ks @ [p]) =
     (if p \<in> set ks then first_occurrences ks else first_occurrences ks @ [p])"
  by (induction ks) auto

lemma distinct_first_occurrences [simp]: "distinct (first_occurrences ks)"
  by (induction ks) auto

lemma setdefault_append_map:
  "distinct ks \<Longrightarrow>
   setdefault_append (map (\<lambda>q. (q, g q)) ks) p v =
     (if p \<in> set ks then map (\<lambda>q. (q, if q = p then g q @ [v] else g q)) ks
      else map (\<lambda>q. (q, g q)) ks @ [(p, [v])])"
  by (induction ks) auto

lemma specs_of_snoc:
  "specs_of q (xs @ [(p, v)]) = (if q = p then specs_of q xs @ [v] else specs_of q xs)"
  by (simp add: specs_of_def)

lemma specs_of_notin: "p \<notin> fst ` set xs \<Longrightarrow> specs_of p xs = []"
  by (induction xs) (auto simp: specs_of_def)

lemma foldl_setdefault:
  "foldl (\<lambda>d (p, r, sn). setdefault_append d p (r, sn)) [] xs =
     map (\<lambda>p. (p, specs_of p xs)) (first_occurrences (map fst xs))"
proof (induction xs rule: rev_induct)
  case Nil
  show ?case by simp
next
  case (snoc x xs)
  obtain p r sn where x: "x = (p, r, sn)" by (cases x)
  show ?case
    using snoc
    by (auto simp: x setdefault_append_map first_occurrences_snoc specs_of_snoc specs_of_notin)
qed

lemma group_deltas_eq:
  "group_deltas ds = map (\<lambda>p. (p, specs_of p (rev ds))) (first_occurrences (map fst (rev ds)))"
  unfolding group_deltas_def by (rule foldl_setdefault)

lemma push_specs_generation:
  "generation m b \<Longrightarrow>
   \<exists>db'. push_specs m p specs db st =
     Inr (db', rev (concat (map (\<lambda>(rel_ppem, step_no). [p, pack (rel_ppem - b) step_no]) specs)) @ st)"
proof (induction specs arbitrary: db st)
  case Nil
  show ?case by simp
next
  case (Cons x specs)
  obtain r sn where x: "x = (r, sn)" by (cases x)
  obtain db1 where sb: "subtract_base m db r = Inr (db1, r - b)"
    using subtract_base_generation [OF Cons.prems] by blast
  from Cons.IH [OF Cons.prems, of db1 "pack (r - b) sn # p # st"]
  show ?case by (auto simp: x sb)
qed

lemma push_groups_generation:
  "generation m b \<Longrightarrow>
   \<exists>db'. push_groups m (map (\<lambda>(p, specs). (p, specs)) gs) db st =
     Inr (db', rev (concat (map (\<lambda>(p, specs).
            concat (map (\<lambda>(rel_ppem, step_no). [p, pack (rel_ppem - b) step_no]) (sorted_reverse specs))) gs)) @ st)"
proof (induction gs arbitrary: db st)
  case Nil
  show ?case by simp
next
  case (Cons g gs)
  obtain p specs where g: "g = (p, specs)" by (cases g)
  obtain db1 where ps: "push_specs m p (sorted_reverse specs) db st =
     Inr (db1, rev (concat (map (\<lambda>(rel_ppem, step_no). [p, pack (rel_ppem - b) step_no]) (sorted_reverse specs))) @ st)"
    using push_specs_generation [OF Cons.prems] by blast
  from Cons.IH [OF Cons.prems, of db1]
  show ?case by (auto simp: g ps)
qed

lemma push_deltas_emission:
  assumes "generation m b"
  shows "\<exists>db'. push_deltas m ds db st = Inr (db', rev (delta_emission b ds) @ st)"
proof -
  let ?gs = "group_deltas ds"
  have "\<exists>db'. push_groups m (map (\<lambda>(p, specs). (p, specs)) ?gs) db (int (length ds) # st) =
     Inr (db', rev (concat (map (\<lambda>(p, specs).
            concat (map (\<lambda>(rel_ppem, step_no). [p, pack (rel_ppem - b) step_no]) (sorted_reverse specs))) ?gs)) @ int (length ds) # st)"
    by (rule push_groups_generation [OF assms])
  then show ?thesis
    by (simp add: push_deltas_def delta_emission_def delta_groups_def group_deltas_eq comp_def
        sorted_reverse_descending)
qed

lemma is_delta_not_marker:
  "is_delta m \<Longrightarrow>
     m \<noteq> ''OVERLAP'' \<and> m \<noteq> ''USEMYMETRICS'' \<and> m \<noteq> ''SCALEDCOMPONENTOFFSET'' \<and>
     m \<noteq> ''UNSCALEDCOMPONENTOFFSET'' \<and> m \<noteq> ''OFFSET'' \<and> m \<noteq> ''ANCHOR'' \<and>
     m \<noteq> ''#PUSHON'' \<and> m \<noteq> ''#PUSHOFF'' \<and> m \<noteq> ''#BEGIN'' \<and> m \<noteq> ''#END'' \<and> m \<noteq> ''#PUSH''"
  by (auto simp: is_delta_def startswith_def)

text \<open>
  Claim C3.  A delta instruction with at least one triple, met in push-on mode,
  prepends to the deque of the innermost open scope, one value after the other, the
  sequence \<open>delta_emission\<close>: the number of triples once, then for each triple, grouped
  by point and sorted within a point, the point index and then the packed value.
  Each value goes to the left end, so the deque then starts with the reversed
  sequence.  The groups are those of the specification: their points are the point
  indexes in the order in which they first occur in the reversed triples, and the
  pairs of each group are the \<open>(rel_ppem, step_no)\<close> pairs of its point, every one as
  often as it occurs, in descending order.
\<close>

theorem delta_operands_prepended:
  assumes "is_delta (mnemonic t)" and "deltas t \<noteq> []" and "push_on s"
      and "generation (mnemonic t) b" and "current_stack s = Inr (pi, st)"
  shows "(\<exists>db'. step s t =
            Inr (emit (s\<lparr>stream := (stream s)[pi := Stack (rev (delta_emission b (deltas t)) @ st)],
                         delta_base := db'\<rparr>)
                   (canonical (mnemonic t)) (flags t))) \<and>
         map fst (delta_groups (deltas t)) = first_occurrences (map fst (rev (deltas t))) \<and>
         (\<forall>(p, specs) \<in> set (delta_groups (deltas t)).
            sorted_wrt descending_order specs \<and> mset specs = mset (specs_of p (rev (deltas t))))"
proof -
  obtain db' where pd: "push_deltas (mnemonic t) (deltas t) (delta_base s) st =
      Inr (db', rev (delta_emission b (deltas t)) @ st)"
    using push_deltas_emission [OF assms(4)] by blast
  have "step s t =
      Inr (emit (s\<lparr>stream := (stream s)[pi := Stack (rev (delta_emission b (deltas t)) @ st)],
                   delta_base := db'\<rparr>)
             (canonical (mnemonic t)) (flags t))"
    using is_delta_not_marker [OF assms(1)] assms(1,2,3,5)
    by (simp add: step_def pd)
  then have "\<exists>db'. step s t =
      Inr (emit (s\<lparr>stream := (stream s)[pi := Stack (rev (delta_emission b (deltas t)) @ st)],
                   delta_base := db'\<rparr>)
             (canonical (mnemonic t)) (flags t))"
    by blast
  moreover have "\<forall>(p, specs) \<in> set (delta_groups (deltas t)).
      sorted_wrt descending_order specs \<and> mset specs = mset (specs_of p (rev (deltas t)))"
    using delta_groups_sorted by blast
  ultimately show ?thesis
    using delta_groups_points [of "deltas t"] by blast
qed

text \<open>
  The triples \<open>(1, 7, 8), (4, 5, 6), (1, 2, 3), (1, 7, -2)\<close> of a \<^verbatim>\<open>DLTP1\<close>: reversed,
  point 1 comes first with the pairs \<open>(7, -2), (2, 3), (7, 8)\<close>, which the sort
  rearranges to \<open>(7, 8), (7, -2), (2, 3)\<close>; the values prepended are
  \<open>4, 1, 127, 1, 118, 1, 42, 4, 93\<close>.
\<close>

theorem delta_operands_prepended_witness:
  "(\<exists>db'. step (initial [])
      \<lparr>mnemonic = ''DLTP1'', flags = '''', stack_items = [],
       deltas = [(1, 7, 8), (4, 5, 6), (1, 2, 3), (1, 7, - 2)]\<rparr> =
     Inr (emit ((initial [])\<lparr>stream := [Stack [93, 4, 42, 1, 118, 1, 127, 1, 4]], delta_base := db'\<rparr>)
            ''DELTAP1'' '''')) \<and>
   group_deltas [(1, 7, 8), (4, 5, 6), (1, 2, 3), (1, 7, - 2)] =
     [(1, [(7, - 2), (2, 3), (7, 8)]), (4, [(5, 6)])] \<and>
   delta_groups [(1, 7, 8), (4, 5, 6), (1, 2, 3), (1, 7, - 2)] =
     [(1, [(7, 8), (7, - 2), (2, 3)]), (4, [(5, 6)])]"
proof -
  let ?ds = "[(1, 7, 8), (4, 5, 6), (1, 2, 3), (1, 7, - 2)] :: (int \<times> int \<times> int) list"
  let ?t = "\<lparr>mnemonic = ''DLTP1'', flags = '''', stack_items = [], deltas = ?ds\<rparr>"
  have a: "is_delta (mnemonic ?t)" by (simp add: is_delta_def startswith_def)
  have b: "deltas ?t \<noteq> []" by simp
  have c: "push_on (initial [])" by (simp add: initial_def)
  have d: "generation (mnemonic ?t) 0" by (simp add: generation_def startswith_def)
  have e: "current_stack (initial []) = Inr (0, [])" by (simp add: current_stack_def initial_def)
  have gd: "group_deltas ?ds = [(1, [(7, - 2), (2, 3), (7, 8)]), (4, [(5, 6)])]"
    by (simp add: group_deltas_def)
  have dg: "delta_groups ?ds = [(1, [(7, 8), (7, - 2), (2, 3)]), (4, [(5, 6)])]"
    by (simp add: delta_groups_def specs_of_def descending_order_def)
  have f: "delta_emission 0 ?ds = [4, 1, 127, 1, 118, 1, 42, 4, 93]"
    by (simp add: delta_emission_def dg pack_def selector_def)
  have g: "canonical ''DLTP1'' = ''DELTAP1''"
    by (simp add: canonical_def startswith_def)
  have h: "stream (initial []) = [Stack []]" by (simp add: initial_def)
  have "\<exists>db'. step (initial []) ?t =
     Inr (emit ((initial [])\<lparr>stream := [Stack [93, 4, 42, 1, 118, 1, 127, 1, 4]], delta_base := db'\<rparr>)
            ''DELTAP1'' '''')"
    using delta_operands_prepended [OF a b c d e] by (simp add: f g h)
  then show ?thesis using gd dg by blast
qed

section \<open>The loop, mnemonic by mnemonic\<close>

lemma emit_fields [simp]:
  "push_indexes (emit s m f) = push_indexes s" "pos (emit s m f) = Suc (pos s)"
  "push_on (emit s m f) = push_on s" "components (emit s m f) = components s"
  "stream (emit s m f) = stream s @ [Line (instruction_line m f)]"
  "delta_base (emit s m f) = delta_base s"
  by (simp_all add: emit_def)

lemma step_OVERLAP: "mnemonic t = ''OVERLAP'' \<Longrightarrow> step s t = Inr s"
  by (simp add: step_def Let_def)

lemma step_USEMYMETRICS: "mnemonic t = ''USEMYMETRICS'' \<Longrightarrow> step s t = Inr (s\<lparr>use_my_metrics := True\<rparr>)"
  by (simp add: step_def Let_def)

lemma step_SCALED:
  "mnemonic t = ''SCALEDCOMPONENTOFFSET'' \<Longrightarrow> step s t = Inr (s\<lparr>scaled_offset := Some True\<rparr>)"
  by (simp add: step_def Let_def)

lemma step_UNSCALED:
  "mnemonic t = ''UNSCALEDCOMPONENTOFFSET'' \<Longrightarrow> step s t = Inr (s\<lparr>scaled_offset := Some False\<rparr>)"
  by (simp add: step_def Let_def)

lemma step_OFFSET:
  "mnemonic t = ''OFFSET'' \<Longrightarrow> step s t =
     (case stack_items t of
        [index, x, y] \<Rightarrow>
          Inr (s\<lparr>components := components s @
                    [OffsetComponent index x y (flags t = ''1'') (use_my_metrics s) (scaled_offset s)],
                 use_my_metrics := False, round_to_grid := False, scaled_offset := None\<rparr>)
      | _ \<Rightarrow> Inl ValueError)"
  by (simp add: step_def Let_def)

lemma step_ANCHOR:
  "mnemonic t = ''ANCHOR'' \<Longrightarrow> step s t =
     (case stack_items t of
        [index, first, second] \<Rightarrow>
          Inr (emit (s\<lparr>components := components s @
                          [AnchorComponent index first second (use_my_metrics s) (scaled_offset s)],
                       use_my_metrics := False, scaled_offset := None\<rparr>) ''ANCHOR'' (flags t))
      | _ \<Rightarrow> Inl ValueError)"
  by (simp add: step_def Let_def)

lemma step_PUSHON: "mnemonic t = ''#PUSHON'' \<Longrightarrow> step s t = Inr (s\<lparr>push_on := True\<rparr>)"
  by (simp add: step_def Let_def)

lemma step_PUSHOFF: "mnemonic t = ''#PUSHOFF'' \<Longrightarrow> step s t = Inr (s\<lparr>push_on := False\<rparr>)"
  by (simp add: step_def Let_def)

lemma step_BEGIN:
  "mnemonic t = ''#BEGIN'' \<Longrightarrow> step s t =
     Inr (s\<lparr>push_indexes := push_indexes s @ [pos s], stream := stream s @ [Stack []],
            pos := pos s + 1\<rparr>)"
  by (simp add: step_def Let_def)

lemma step_END:
  "mnemonic t = ''#END'' \<Longrightarrow> step s t =
     (if push_indexes s = [] then Inl IndexError
      else let pi = last (push_indexes s);
               s' = s\<lparr>push_indexes := butlast (push_indexes s)\<rparr> in
        if pi \<ge> length (stream s) then Inl IndexError
        else case stream s ! pi of
               Stack st \<Rightarrow>
                 if st \<noteq> [] then Inr (s'\<lparr>stream := (stream s)[pi := Line (push_line st)]\<rparr>)
                 else Inr s'
             | Line l \<Rightarrow>
                 if l \<noteq> [] then
                   Inr (s'\<lparr>stream := (stream s)[pi := Line (''PUSH[] '' @ join '' '' (map (\<lambda>c. [c]) l))]\<rparr>)
                 else Inr s')"
  by (simp add: step_def Let_def)

lemma step_PUSH:
  "mnemonic t = ''#PUSH'' \<Longrightarrow> step s t =
     Inr (s\<lparr>stream := stream s @ [Line (push_line (stack_items t))], pos := pos s + 1\<rparr>)"
  by (simp add: step_def Let_def)

lemma is_delta_not_keyword: "is_delta m \<Longrightarrow> m \<notin> set marker_names"
  by (auto simp: is_delta_def startswith_def marker_names_def)

lemma step_delta:
  "is_delta (mnemonic t) \<Longrightarrow> step s t =
     (if \<not> push_on s then Inl AssertPushOn
      else if \<not> length (deltas t) > 0 then Inl AssertDeltas
      else case current_stack s of
             Inl e \<Rightarrow> Inl e
           | Inr (pi, st) \<Rightarrow>
               (case push_deltas (mnemonic t) (deltas t) (delta_base s) st of
                  Inl e \<Rightarrow> Inl e
                | Inr (db, st') \<Rightarrow>
                    Inr (emit (s\<lparr>stream := (stream s)[pi := Stack st'], delta_base := db\<rparr>)
                           (canonical (mnemonic t)) (flags t))))"
  using is_delta_not_keyword [of "mnemonic t"] by (simp add: step_def marker_names_def Let_def)

lemma step_other:
  "mnemonic t \<notin> set marker_names \<Longrightarrow> \<not> is_delta (mnemonic t) \<Longrightarrow> step s t =
     (if push_on s then
        (if stack_items t = [] then Inr (emit s (mnemonic t) (flags t))
         else case current_stack s of
                Inl e \<Rightarrow> Inl e
              | Inr (pi, st) \<Rightarrow>
                  Inr (emit (s\<lparr>stream := (stream s)[pi := Stack (stack_items t @ st)]\<rparr>)
                         (mnemonic t) (flags t)))
      else if stack_items t \<noteq> [] then Inl AssertNoStackItems
      else Inr (emit s (mnemonic t) (flags t)))"
  by (simp add: step_def marker_names_def Let_def)

lemmas step_keyword =
  step_OVERLAP step_USEMYMETRICS step_SCALED step_UNSCALED step_OFFSET step_ANCHOR
  step_PUSHON step_PUSHOFF step_BEGIN step_END step_PUSH

lemma subtract_base_error: "subtract_base m db r = Inl e \<Longrightarrow> e = UnboundLocalError"
  by (auto simp: subtract_base_def Let_def split: if_splits option.splits)

lemma push_specs_error: "push_specs m p specs db st = Inl e \<Longrightarrow> e = UnboundLocalError"
  by (induction m p specs db st rule: push_specs.induct)
     (auto split: sum.splits dest: subtract_base_error)

lemma push_groups_error: "push_groups m gs db st = Inl e \<Longrightarrow> e = UnboundLocalError"
  by (induction m gs db st rule: push_groups.induct)
     (auto split: sum.splits dest: push_specs_error)

lemma push_deltas_error: "push_deltas m ds db st = Inl e \<Longrightarrow> e = UnboundLocalError"
  unfolding push_deltas_def by (rule push_groups_error)

lemma current_stack_error: "current_stack s = Inl e \<Longrightarrow> e = IndexError \<or> e = AttributeError"
  by (auto simp: current_stack_def Let_def split: if_splits entry.splits)

lemma token_cases [case_names OVERLAP USEMYMETRICS SCALED UNSCALED OFFSET ANCHOR PUSHON PUSHOFF BEGIN END PUSH delta other]:
  obtains "mnemonic t = ''OVERLAP''" | "mnemonic t = ''USEMYMETRICS''"
  | "mnemonic t = ''SCALEDCOMPONENTOFFSET''" | "mnemonic t = ''UNSCALEDCOMPONENTOFFSET''"
  | "mnemonic t = ''OFFSET''" | "mnemonic t = ''ANCHOR''"
  | "mnemonic t = ''#PUSHON''" | "mnemonic t = ''#PUSHOFF''"
  | "mnemonic t = ''#BEGIN''" | "mnemonic t = ''#END''" | "mnemonic t = ''#PUSH''"
  | "is_delta (mnemonic t)"
  | "mnemonic t \<notin> set marker_names" "\<not> is_delta (mnemonic t)"
  by (auto simp: marker_names_def)

lemma step_not_AssertScopes: "step s t \<noteq> Inl (AssertScopes pis)"
proof (cases t rule: token_cases)
  case OFFSET
  then show ?thesis by (simp add: step_OFFSET split: list.splits)
next
  case ANCHOR
  then show ?thesis by (simp add: step_ANCHOR split: list.splits)
next
  case END
  then show ?thesis by (simp add: step_END Let_def split: entry.splits)
next
  case delta
  then show ?thesis
    by (auto simp: step_delta split: sum.splits dest: push_deltas_error current_stack_error)
next
  case other
  then show ?thesis
    by (auto simp: step_other split: sum.splits dest: current_stack_error)
qed (simp_all add: step_keyword)

lemma run_not_AssertScopes: "run s toks \<noteq> Inl (AssertScopes pis)"
  by (induction toks arbitrary: s) (auto split: sum.splits simp: step_not_AssertScopes)

text \<open>Tokens other than the two scope markers leave the scope stack alone.\<close>

lemma step_push_indexes:
  assumes "step s t = Inr s'" and "mnemonic t \<noteq> ''#BEGIN''" and "mnemonic t \<noteq> ''#END''"
  shows "push_indexes s' = push_indexes s \<and> pos s \<le> pos s'"
proof (cases t rule: token_cases)
  case OFFSET
  then show ?thesis using assms(1) by (auto simp: step_OFFSET split: list.splits)
next
  case ANCHOR
  then show ?thesis using assms(1) by (auto simp: step_ANCHOR split: list.splits)
next
  case delta
  then show ?thesis using assms(1)
    by (auto simp: step_delta split: sum.splits if_splits)
next
  case other
  then show ?thesis using assms(1)
    by (auto simp: step_other split: sum.splits if_splits)
qed (use assms in \<open>auto simp: step_keyword\<close>)

lemma step_BEGIN_inv:
  assumes "step s t = Inr s'" and "mnemonic t = ''#BEGIN''" and "scopes_inv s d"
  shows "scopes_inv s' (map_option Suc d)"
  using assms by (cases d) (auto simp: step_BEGIN scopes_inv_def)

lemma step_END_fields:
  assumes "step s t = Inr s'" and "mnemonic t = ''#END''"
  shows "push_indexes s \<noteq> [] \<and> push_indexes s' = butlast (push_indexes s) \<and> pos s' = pos s"
  using assms by (auto simp: step_END Let_def split: if_splits entry.splits)

lemma step_END_inv:
  assumes "step s t = Inr s'" and "mnemonic t = ''#END''" and "scopes_inv s d"
  shows "scopes_inv s' (case d of None \<Rightarrow> None | Some 0 \<Rightarrow> None | Some (Suc n) \<Rightarrow> Some n)"
proof -
  have f: "push_indexes s \<noteq> []" "push_indexes s' = butlast (push_indexes s)" "pos s' = pos s"
    using step_END_fields [OF assms(1,2)] by auto
  show ?thesis
  proof (cases d)
    case None
    then show ?thesis using assms(3) f by (auto simp: scopes_inv_def dest: in_set_butlastD)
  next
    case (Some n)
    then obtain rest where r: "push_indexes s = 0 # rest" "length rest = n" "0 \<notin> set rest" "0 < pos s"
      using assms(3) by (auto simp: scopes_inv_def)
    show ?thesis
    proof (cases n)
      case 0
      then show ?thesis using Some r f by (simp add: scopes_inv_def)
    next
      case (Suc k)
      then have "rest \<noteq> []" using r by auto
      then have "butlast (0 # rest) = 0 # butlast rest" by simp
      then show ?thesis using Some Suc r f
        by (auto simp: scopes_inv_def dest: in_set_butlastD)
    qed
  qed
qed

lemma step_scopes_inv:
  assumes "step s t = Inr s'" and "scopes_inv s d"
  shows "scopes_inv s' (nesting d [t])"
proof -
  consider (b) "mnemonic t = ''#BEGIN''" | (e) "mnemonic t = ''#END''"
    | (o) "mnemonic t \<noteq> ''#BEGIN''" "mnemonic t \<noteq> ''#END''" by blast
  then show ?thesis
  proof cases
    case b
    then show ?thesis using step_BEGIN_inv [OF assms(1) b assms(2)] by simp
  next
    case e
    then show ?thesis using step_END_inv [OF assms(1) e assms(2)] by simp
  next
    case o
    then show ?thesis
      using step_push_indexes [OF assms(1) o] assms(2)
      by (auto simp: scopes_inv_def split: option.splits)
  qed
qed

lemma nesting_append: "nesting d (xs @ ys) = nesting (nesting d xs) ys"
  by (induction xs arbitrary: d) auto

lemma run_scopes_inv:
  "run s toks = Inr s' \<Longrightarrow> scopes_inv s d \<Longrightarrow> scopes_inv s' (nesting d toks)"
proof (induction toks arbitrary: s d)
  case Nil
  then show ?case by simp
next
  case (Cons t ts)
  from Cons.prems(1) obtain s1 where s1: "step s t = Inr s1" "run s1 ts = Inr s'"
    by (auto split: sum.splits)
  have "scopes_inv s1 (nesting d [t])" by (rule step_scopes_inv [OF s1(1) Cons.prems(2)])
  from Cons.IH [OF s1(2) this] show ?case
    using nesting_append [of d "[t]" ts] by simp
qed

lemma initial_scopes_inv: "scopes_inv (initial comps) (Some 0)"
  by (simp add: scopes_inv_def initial_def)

lemma scopes_inv_root: "scopes_inv s d \<Longrightarrow> (push_indexes s = [0]) = (d = Some 0)"
  by (cases d) (auto simp: scopes_inv_def)

text \<open>
  Claim C4, as the code has it.  When the token loop completes, \<^verbatim>\<open>push_indexes\<close> is
  \<open>[0]\<close> exactly when the markers are balanced; on unbalanced markers the assertion
  of line 227 then fails, and it raises the only scope error there is: the loop itself
  never raises it.  A successful transformation has balanced markers and ends with
  the root scope alone; unbalanced markers always make the transformation fail.
\<close>

theorem scopes_closed_at_end:
  "(run (initial comps) toks = Inr s \<longrightarrow> (push_indexes s = [0]) = balanced toks) \<and>
   (run (initial comps) toks = Inr s \<and> \<not> balanced toks \<longrightarrow>
      transform_tokens toks comps = Inl (AssertScopes (push_indexes s))) \<and>
   (transform_tokens toks comps = Inr r \<longrightarrow>
      balanced toks \<and> (\<exists>s'. run (initial comps) toks = Inr s' \<and> push_indexes s' = [0])) \<and>
   (\<not> balanced toks \<longrightarrow> (\<exists>e. transform_tokens toks comps = Inl e)) \<and>
   run (initial comps) toks \<noteq> Inl (AssertScopes pis)"
proof -
  have root: "(push_indexes s' = [0]) = balanced toks" if "run (initial comps) toks = Inr s'" for s'
    using scopes_inv_root [OF run_scopes_inv [OF that initial_scopes_inv]]
    by (simp add: balanced_def)
  have fail_end: "transform_tokens toks comps = Inl (AssertScopes (push_indexes s'))"
    if "run (initial comps) toks = Inr s'" and "\<not> balanced toks" for s'
    using that root [OF that(1)]
    by (simp add: transform_tokens_def transform_lines_def finish_def)
  have ok: "balanced toks \<and> (\<exists>s'. run (initial comps) toks = Inr s' \<and> push_indexes s' = [0])"
    if "transform_tokens toks comps = Inr r"
  proof -
    from that obtain s' where s': "run (initial comps) toks = Inr s'" and "\<exists>ls. finish s' = Inr ls"
      by (auto simp: transform_tokens_def transform_lines_def split: sum.splits)
    then have "push_indexes s' = [0]" by (auto simp: finish_def split: if_splits)
    with s' root [OF s'] show ?thesis by auto
  qed
  have fails: "\<exists>e. transform_tokens toks comps = Inl e" if "\<not> balanced toks"
  proof (cases "transform_tokens toks comps")
    case (Inl e)
    then show ?thesis by blast
  next
    case (Inr r')
    have "transform_tokens toks comps = Inr r' \<Longrightarrow> balanced toks"
      using root by (auto simp: transform_tokens_def transform_lines_def finish_def split: sum.splits if_splits)
    with Inr that show ?thesis by blast
  qed
  show ?thesis
    using root fail_end ok fails run_not_AssertScopes by blast
qed

theorem scopes_closed_at_end_witness:
  "run (initial []) [\<lparr>mnemonic = ''#BEGIN'', flags = '''', stack_items = [], deltas = []\<rparr>] =
     Inr \<lparr>push_on = True, push_indexes = [0, 1], stream = [Stack [], Stack []], pos = 2,
          components = [], round_to_grid = False, use_my_metrics = False,
          scaled_offset = None, delta_base = None\<rparr> \<and>
   \<not> balanced [\<lparr>mnemonic = ''#BEGIN'', flags = '''', stack_items = [], deltas = []\<rparr>] \<and>
   transform_tokens [\<lparr>mnemonic = ''#BEGIN'', flags = '''', stack_items = [], deltas = []\<rparr>] [] =
     Inl (AssertScopes [0, 1]) \<and>
   transform_tokens [\<lparr>mnemonic = ''SVTCA'', flags = ''1'', stack_items = [], deltas = []\<rparr>] [] =
     Inr (''SVTCA[1]'', []) \<and>
   balanced [\<lparr>mnemonic = ''SVTCA'', flags = ''1'', stack_items = [], deltas = []\<rparr>]"
proof -
  let ?b = "\<lparr>mnemonic = ''#BEGIN'', flags = '''', stack_items = [], deltas = []\<rparr>"
  let ?s = "\<lparr>push_on = True, push_indexes = [0, 1], stream = [Stack [], Stack []], pos = 2,
          components = [], round_to_grid = False, use_my_metrics = False,
          scaled_offset = None, delta_base = None\<rparr>"
  let ?t = "\<lparr>mnemonic = ''SVTCA'', flags = ''1'', stack_items = [], deltas = []\<rparr>"
  have r: "run (initial []) [?b] = Inr ?s"
    by (simp add: step_def initial_def)
  have nb: "\<not> balanced [?b]" by (simp add: balanced_def)
  have t: "transform_tokens [?t] [] = Inr (''SVTCA[1]'', [])"
    by (simp add: transform_tokens_def transform_lines_def step_def initial_def is_delta_def
        startswith_def emit_def instruction_line_def finish_def close_root_def entry_lines_def truthy_def)
  show ?thesis
    using scopes_closed_at_end [of "[]" "[?b]" ?s "([], [])" "[]"]
          scopes_closed_at_end [of "[]" "[?t]" ?s "(''SVTCA[1]'', [])" "[]"] r nb t
    by simp
qed

text \<open>
  Claim C4 as stated fails: the failure on unbalanced markers need not be the scope
  assertion at the end of the input.  A second \<^verbatim>\<open>#END\<close> pops an empty
  \<^verbatim>\<open>push_indexes\<close>, and the loop stops there with \<^verbatim>\<open>IndexError\<close>.
\<close>

theorem scope_error_counterexample:
  "\<not> balanced [\<lparr>mnemonic = ''#END'', flags = '''', stack_items = [], deltas = []\<rparr>,
               \<lparr>mnemonic = ''#END'', flags = '''', stack_items = [], deltas = []\<rparr>] \<and>
   run (initial []) [\<lparr>mnemonic = ''#END'', flags = '''', stack_items = [], deltas = []\<rparr>,
                     \<lparr>mnemonic = ''#END'', flags = '''', stack_items = [], deltas = []\<rparr>] = Inl IndexError \<and>
   transform_tokens [\<lparr>mnemonic = ''#END'', flags = '''', stack_items = [], deltas = []\<rparr>,
                     \<lparr>mnemonic = ''#END'', flags = '''', stack_items = [], deltas = []\<rparr>] [] = Inl IndexError"
  by (simp add: balanced_def transform_tokens_def transform_lines_def step_def initial_def)

section \<open>Offset declarations emit no line, anchor declarations one each\<close>












lemma open_stacks_bound: "open_stacks s \<Longrightarrow> i \<in> set (push_indexes s) \<Longrightarrow> i < length (stream s)"
  by (simp add: open_stacks_def)














lemmas transform_eval =
  transform_tokens_def transform_lines_def step_def initial_def is_delta_def startswith_def
  emit_def instruction_line_def finish_def close_root_def entry_lines_def truthy_def
  current_stack_def push_line_def Let_def


section \<open>One push line ahead of the instructions\<close>

lemma push_specs_append:
  "push_specs m p specs db (st @ st') =
     (case push_specs m p specs db st of Inl e \<Rightarrow> Inl e | Inr (db', ops) \<Rightarrow> Inr (db', ops @ st'))"
proof (induction specs arbitrary: db st)
  case Nil
  show ?case by simp
next
  case (Cons x specs)
  obtain r sn where x: "x = (r, sn)" by (cases x)
  show ?case
    using Cons.IH [of _ "pack _ sn # p # st"]
    by (auto simp: x split: sum.splits)
qed

lemma push_groups_append:
  "push_groups m gs db (st @ st') =
     (case push_groups m gs db st of Inl e \<Rightarrow> Inl e | Inr (db', ops) \<Rightarrow> Inr (db', ops @ st'))"
proof (induction gs arbitrary: db st)
  case Nil
  show ?case by simp
next
  case (Cons g gs)
  obtain p specs where g: "g = (p, specs)" by (cases g)
  show ?case
    by (auto simp: g push_specs_append Cons.IH split: sum.splits)
qed

lemma push_deltas_append:
  "push_deltas m ds db st =
     (case push_deltas m ds db [] of Inl e \<Rightarrow> Inl e | Inr (db', ops) \<Rightarrow> Inr (db', ops @ st))"
  using push_groups_append [of m "group_deltas ds" db "[int (length ds)]" st]
  by (simp add: push_deltas_def)

lemma current_stack_root:
  "push_indexes s = [0] \<Longrightarrow> stream s = Stack ops # es \<Longrightarrow> current_stack s = Inr (0, ops)"
  by (simp add: current_stack_def)

lemma step_flat:
  assumes "step s t = Inr s'" and "scope_free t"
      and "push_indexes s = [0]" and "stream s = Stack ops # map Line ls"
  shows "push_indexes s' = [0] \<and>
         stream s' = Stack (contribution (push_on s) (delta_base s) t @ ops) #
                       map Line (ls @ instruction_lines [t]) \<and>
         push_on s' = mode_after (push_on s) t \<and>
         delta_base s' = base_after (delta_base s) t"
proof (cases t rule: token_cases)
  case OFFSET
  then show ?thesis using assms
    by (auto simp: step_OFFSET contribution_def mode_after_def base_after_def marker_names_def
        instruction_lines_def emits_line_def is_delta_def startswith_def split: list.splits)
next
  case ANCHOR
  then show ?thesis using assms
    by (auto simp: step_ANCHOR contribution_def mode_after_def base_after_def marker_names_def
        instruction_lines_def emits_line_def line_of_def is_delta_def startswith_def split: list.splits)
next
  case BEGIN
  then show ?thesis using assms(2) by (simp add: scope_free_def)
next
  case END
  then show ?thesis using assms(2) by (simp add: scope_free_def)
next
  case PUSH
  then show ?thesis using assms(2) by (simp add: scope_free_def)
next
  case delta
  have nk: "mnemonic t \<notin> set marker_names" using delta by (rule is_delta_not_keyword)
  then have np: "mnemonic t \<noteq> ''#PUSHON''" "mnemonic t \<noteq> ''#PUSHOFF''" "mnemonic t \<noteq> ''ANCHOR''"
    by (auto simp: marker_names_def)
  show ?thesis using assms delta nk np
    by (auto simp: step_delta current_stack_root push_deltas_append [of _ _ _ ops]
        contribution_def mode_after_def base_after_def instruction_lines_def emits_line_def line_of_def
        split: sum.splits if_splits)
next
  case other
  then have np: "mnemonic t \<noteq> ''#PUSHON''" "mnemonic t \<noteq> ''#PUSHOFF''" "mnemonic t \<noteq> ''ANCHOR''"
    by (auto simp: marker_names_def)
  show ?thesis using assms other np
    by (auto simp: step_other current_stack_root
        contribution_def mode_after_def base_after_def instruction_lines_def emits_line_def line_of_def
        split: sum.splits if_splits)
qed (use assms in \<open>auto simp: step_keyword contribution_def mode_after_def base_after_def
        marker_names_def instruction_lines_def emits_line_def is_delta_def startswith_def\<close>)

lemma instruction_lines_Cons:
  "instruction_lines (t # ts) = instruction_lines [t] @ instruction_lines ts"
  by (simp add: instruction_lines_def)

lemma run_flat:
  assumes "run s toks = Inr s'" and "\<forall>t \<in> set toks. scope_free t"
      and "push_indexes s = [0]" and "stream s = Stack ops # map Line ls"
  shows "push_indexes s' = [0] \<and>
         stream s' = Stack (concat (rev (pushed (push_on s) (delta_base s) toks)) @ ops) #
                       map Line (ls @ instruction_lines toks)"
  using assms
proof (induction toks arbitrary: s ops ls)
  case Nil
  then show ?case by (simp add: instruction_lines_def)
next
  case (Cons t ts)
  from Cons.prems(1) obtain s1 where s1: "step s t = Inr s1" "run s1 ts = Inr s'"
    by (auto split: sum.splits)
  have sf: "scope_free t" "\<forall>t \<in> set ts. scope_free t" using Cons.prems(2) by auto
  note f = step_flat [OF s1(1) sf(1) Cons.prems(3,4)]
  from f have a: "push_indexes s1 = [0]"
    and b: "stream s1 = Stack (contribution (push_on s) (delta_base s) t @ ops) #
                          map Line (ls @ instruction_lines [t])"
    and c: "push_on s1 = mode_after (push_on s) t" "delta_base s1 = base_after (delta_base s) t"
    by auto
  from Cons.IH [OF s1(2) sf(2) a b]
  show ?case by (simp add: c instruction_lines_Cons [of t ts])
qed

lemma entry_lines_Lines:
  "\<forall>l \<in> set ls. l \<noteq> [] \<Longrightarrow> entry_lines (map Line ls) = Inr ls"
proof -
  assume ne: "\<forall>l \<in> set ls. l \<noteq> []"
  have 1: "filter truthy (map Line ls) = map Line ls"
    using ne by (induction ls) (auto simp: truthy_def)
  have 2: "list_all (\<lambda>e. case e of Line l \<Rightarrow> True | Stack st \<Rightarrow> False) (map Line ls)"
    by (induction ls) auto
  have 3: "map (\<lambda>e. case e of Line l \<Rightarrow> l | Stack st \<Rightarrow> []) (map Line ls) = ls"
    by (induction ls) auto
  show ?thesis unfolding entry_lines_def Let_def 1 using 2 3 by simp
qed

lemma instruction_lines_nonempty: "\<forall>l \<in> set (instruction_lines toks). l \<noteq> []"
  by (auto simp: instruction_lines_def line_of_def instruction_line_def)

lemma finish_flat:
  assumes "push_indexes s = [0]" and "stream s = Stack ops # map Line ls" and "\<forall>l \<in> set ls. l \<noteq> []"
  shows "finish s = Inr ((if ops = [] then [] else [push_line ops]) @ ls)"
proof -
  have e: "entry_lines (map Line ls) = Inr ls" by (rule entry_lines_Lines [OF assms(3)])
  have p: "push_line ops \<noteq> []" by (simp add: push_line_def)
  have "entry_lines (Line (push_line ops) # map Line ls) = Inr (push_line ops # ls)"
    using entry_lines_Lines [of "push_line ops # ls"] p assms(3) by simp
  moreover have "entry_lines (Stack [] # map Line ls) = Inr ls"
    using e by (simp add: entry_lines_def truthy_def)
  ultimately show ?thesis
    using assms(1,2) by (simp add: finish_def close_root_def)
qed

text \<open>
  Claim C1, as the code has it.  On tokens without \<^verbatim>\<open>#BEGIN\<close>, \<^verbatim>\<open>#END\<close> and \<^verbatim>\<open>#PUSH\<close>
  a successful transformation returns at most one \<^verbatim>\<open>PUSH[]\<close> line, ahead of the
  instruction lines, which follow in the order of the tokens.  The push line lists
  \<open>root_operands\<close>: the operands of a later instruction stand before those of an
  earlier one, and the operands of one instruction keep their order.
\<close>

theorem single_push_line_first:
  assumes "\<forall>t \<in> set toks. scope_free t"
      and "transform_tokens toks comps = Inr (out, cs)"
  shows "out = join newline
           ((if root_operands toks = [] then [] else [push_line (root_operands toks)]) @
            instruction_lines toks)"
proof -
  obtain s where s: "run (initial comps) toks = Inr s"
    using assms(2) by (auto simp: transform_tokens_def transform_lines_def split: sum.splits)
  have i: "push_indexes (initial comps) = [0]" "stream (initial comps) = Stack [] # map Line []"
    "push_on (initial comps)" "delta_base (initial comps) = None"
    by (simp_all add: initial_def)
  have "push_indexes s = [0] \<and>
        stream s = Stack (root_operands toks) # map Line (instruction_lines toks)"
    using run_flat [OF s assms(1) i(1,2)] by (simp add: i root_operands_def)
  then have "finish s =
     Inr ((if root_operands toks = [] then [] else [push_line (root_operands toks)]) @
          instruction_lines toks)"
    using finish_flat [OF _ _ instruction_lines_nonempty] by blast
  then show ?thesis
    using assms(2) s by (simp add: transform_tokens_def transform_lines_def)
qed

theorem single_push_line_first_witness:
  "transform_tokens
     [\<lparr>mnemonic = ''SRP0'', flags = '''', stack_items = [1], deltas = []\<rparr>,
      \<lparr>mnemonic = ''#PUSHOFF'', flags = '''', stack_items = [], deltas = []\<rparr>,
      \<lparr>mnemonic = ''SVTCA'', flags = ''1'', stack_items = [], deltas = []\<rparr>,
      \<lparr>mnemonic = ''#PUSHON'', flags = '''', stack_items = [], deltas = []\<rparr>,
      \<lparr>mnemonic = ''MIRP'', flags = ''10100'', stack_items = [2, 3], deltas = []\<rparr>] [] =
     Inr (''PUSH[] 2 3 1'' @ newline @ ''SRP0[]'' @ newline @ ''SVTCA[1]'' @ newline @ ''MIRP[10100]'', []) \<and>
   root_operands
     [\<lparr>mnemonic = ''SRP0'', flags = '''', stack_items = [1], deltas = []\<rparr>,
      \<lparr>mnemonic = ''#PUSHOFF'', flags = '''', stack_items = [], deltas = []\<rparr>,
      \<lparr>mnemonic = ''SVTCA'', flags = ''1'', stack_items = [], deltas = []\<rparr>,
      \<lparr>mnemonic = ''#PUSHON'', flags = '''', stack_items = [], deltas = []\<rparr>,
      \<lparr>mnemonic = ''MIRP'', flags = ''10100'', stack_items = [2, 3], deltas = []\<rparr>] = [2, 3, 1]"
proof -
  let ?toks = "[\<lparr>mnemonic = ''SRP0'', flags = '''', stack_items = [1], deltas = []\<rparr>,
      \<lparr>mnemonic = ''#PUSHOFF'', flags = '''', stack_items = [], deltas = []\<rparr>,
      \<lparr>mnemonic = ''SVTCA'', flags = ''1'', stack_items = [], deltas = []\<rparr>,
      \<lparr>mnemonic = ''#PUSHON'', flags = '''', stack_items = [], deltas = []\<rparr>,
      \<lparr>mnemonic = ''MIRP'', flags = ''10100'', stack_items = [2, 3], deltas = []\<rparr>]"
  have h: "\<forall>t \<in> set ?toks. scope_free t" by (simp add: scope_free_def)
  have n: "str_int 1 = ''1''" "str_int 2 = ''2''" "str_int 3 = ''3''"
    by (simp_all add: str_int_def str_nat.simps digit_char_def)
  have r: "transform_tokens ?toks [] =
     Inr (''PUSH[] 2 3 1'' @ newline @ ''SRP0[]'' @ newline @ ''SVTCA[1]'' @ newline @ ''MIRP[10100]'', [])"
    by (simp add: transform_eval n)
  have o: "root_operands ?toks = [2, 3, 1]"
    by (simp add: root_operands_def contribution_def mode_after_def base_after_def marker_names_def
        is_delta_def startswith_def)
  show ?thesis
    using single_push_line_first [OF h r] r o by simp
qed

text \<open>
  Claim C1 as stated fails in the order of the instructions: for \<^verbatim>\<open>SRP0[], 1\<close> followed
  by \<^verbatim>\<open>MIRP[10100], 2, 3\<close> the push line is \<^verbatim>\<open>PUSH[] 2 3 1\<close>, not the operands in the
  order of declaration.
\<close>

theorem declaration_order_counterexample:
  "transform_lines
     [\<lparr>mnemonic = ''SRP0'', flags = '''', stack_items = [1], deltas = []\<rparr>,
      \<lparr>mnemonic = ''MIRP'', flags = ''10100'', stack_items = [2, 3], deltas = []\<rparr>] [] =
     Inr ([''PUSH[] 2 3 1'', ''SRP0[]'', ''MIRP[10100]''], []) \<and>
   push_line (concat (map stack_items
     [\<lparr>mnemonic = ''SRP0'', flags = '''', stack_items = [1], deltas = []\<rparr>,
      \<lparr>mnemonic = ''MIRP'', flags = ''10100'', stack_items = [2, 3], deltas = []\<rparr>])) = ''PUSH[] 1 2 3'' \<and>
   ''PUSH[] 2 3 1'' \<noteq> ''PUSH[] 1 2 3''"
proof -
  have n: "str_int 1 = ''1''" "str_int 2 = ''2''" "str_int 3 = ''3''"
    by (simp_all add: str_int_def str_nat.simps digit_char_def)
  show ?thesis by (simp add: transform_eval n)
qed

section \<open>Validation of declared components\<close>

lemmas composite_eval =
  check_composite_info_def check_component_def check_placement_def flag_differs_def is_set_def
  USE_MY_METRICS_def ROUND_XY_TO_GRID_def SCALED_COMPONENT_OFFSET_def UNSCALED_COMPONENT_OFFSET_def
  set_components_flags_def set_component_flags_def set_flag_def Let_def

text \<open>
  What the three flag tests of lines 401 to 419 accept: the scaled and the unscaled
  bit are both compared with the truth of \<^verbatim>\<open>vttcomp.scaled_offset\<close>.
\<close>

lemma flag_tests_accept:
  assumes "list_index glyph_order (glyphName gcomp) = Some index"
      and "vtt_index vttcomp = int index"
      and "check_placement name True i gcomp vttcomp = Inr ()"
  shows "(check_component name glyph_order True i gcomp vttcomp = Inr ()) =
           (is_set (comp_flags gcomp) USE_MY_METRICS = vtt_use_my_metrics vttcomp \<and>
            is_set (comp_flags gcomp) SCALED_COMPONENT_OFFSET = (vtt_scaled_offset vttcomp = Some True) \<and>
            is_set (comp_flags gcomp) UNSCALED_COMPONENT_OFFSET = (vtt_scaled_offset vttcomp = Some True))"
  using assms by (auto simp: check_component_def flag_differs_def)

text \<open>
  Claim C7 fails on the code.  A component declared \<^verbatim>\<open>UNSCALEDCOMPONENTOFFSET\<close> gets the
  unscaled bit from \<^verbatim>\<open>set_components_flags\<close>; on that very outline the check with
  \<^verbatim>\<open>check_flags\<close> reports a wrong unscaled flag, although declaration and outline agree.
\<close>

theorem unscaled_flag_agreement_rejected:
  "set_components_flags [\<lparr>glyphName = ''B'', comp_flags = 2, placement = XY 0 0\<rparr>]
     [OffsetComponent 1 0 0 False False (Some False)] 6 =
     Inr [\<lparr>glyphName = ''B'', comp_flags = 4098, placement = XY 0 0\<rparr>] \<and>
   is_set 4098 UNSCALED_COMPONENT_OFFSET \<and> \<not> is_set 4098 SCALED_COMPONENT_OFFSET \<and>
   \<not> is_set 4098 USE_MY_METRICS \<and>
   check_composite_info ''A'' [\<lparr>glyphName = ''B'', comp_flags = 4098, placement = XY 0 0\<rparr>]
     [OffsetComponent 1 0 0 False False (Some False)] [''.notdef'', ''B''] True =
     Inl (WrongUnscaledFlag 0 ''A'')"
  by (simp add: composite_eval)

text \<open>
  Claim C5, as the code has it.  For the tokens of the two statements the
  transformation returns the empty text and the one offset component; the validation
  of that component against an outline component at index 2 with offset \<open>(10, -20)\<close> and
  the rounding bit succeeds without flag checking, and with flag checking exactly
  when the outline component also has the use-my-metrics bit and neither the scaled
  nor the unscaled bit.
\<close>

theorem usemymetrics_offset_example:
  assumes "parseString (''USEMYMETRICS[]'' @ newline @ ''OFFSET[R], 2, 10, -20'') =
             Inr [\<lparr>mnemonic = ''USEMYMETRICS'', flags = '''', stack_items = [], deltas = []\<rparr>,
                  \<lparr>mnemonic = ''OFFSET'', flags = ''1'', stack_items = [2, 10, - 20], deltas = []\<rparr>]"
      and "list_index glyph_order (glyphName gcomp) = Some 2"
      and "placement gcomp = XY 10 (- 20)"
      and "is_set (comp_flags gcomp) ROUND_XY_TO_GRID"
  shows "transform_assembly parseString (''USEMYMETRICS[]'' @ newline @ ''OFFSET[R], 2, 10, -20'') [] =
           Inr ([], [OffsetComponent 2 10 (- 20) True True None]) \<and>
         (check_composite_info name [gcomp] [OffsetComponent 2 10 (- 20) True True None] glyph_order True = Inr ()) =
           (is_set (comp_flags gcomp) USE_MY_METRICS \<and>
            \<not> is_set (comp_flags gcomp) SCALED_COMPONENT_OFFSET \<and>
            \<not> is_set (comp_flags gcomp) UNSCALED_COMPONENT_OFFSET) \<and>
         check_composite_info name [gcomp] [OffsetComponent 2 10 (- 20) True True None] glyph_order False = Inr ()"
proof -
  have s: "strip (''USEMYMETRICS[]'' @ newline @ ''OFFSET[R], 2, 10, -20'') =
           ''USEMYMETRICS[]'' @ newline @ ''OFFSET[R], 2, 10, -20''"
    by (simp add: strip_def isspace_def newline_def)
  have t: "transform_assembly parseString (''USEMYMETRICS[]'' @ newline @ ''OFFSET[R], 2, 10, -20'') [] =
           Inr ([], [OffsetComponent 2 10 (- 20) True True None])"
    unfolding transform_assembly_def s Let_def using assms(1)
    by (simp add: transform_eval)
  have c: "(check_composite_info name [gcomp] [OffsetComponent 2 10 (- 20) True True None] glyph_order True = Inr ()) =
           (is_set (comp_flags gcomp) USE_MY_METRICS \<and>
            \<not> is_set (comp_flags gcomp) SCALED_COMPONENT_OFFSET \<and>
            \<not> is_set (comp_flags gcomp) UNSCALED_COMPONENT_OFFSET)"
    using assms(2,3,4)
    by (auto simp: check_composite_info_def check_component_def check_placement_def flag_differs_def)
  have d: "check_composite_info name [gcomp] [OffsetComponent 2 10 (- 20) True True None] glyph_order False = Inr ()"
    using assms(2,3)
    by (simp add: check_composite_info_def check_component_def check_placement_def)
  from t c d show ?thesis by blast
qed

theorem usemymetrics_offset_example_witness:
  "transform_assembly
     (\<lambda>d. Inr [\<lparr>mnemonic = ''USEMYMETRICS'', flags = '''', stack_items = [], deltas = []\<rparr>,
                \<lparr>mnemonic = ''OFFSET'', flags = ''1'', stack_items = [2, 10, - 20], deltas = []\<rparr>])
     (''USEMYMETRICS[]'' @ newline @ ''OFFSET[R], 2, 10, -20'') [] =
     Inr ([], [OffsetComponent 2 10 (- 20) True True None]) \<and>
   check_composite_info ''g'' [\<lparr>glyphName = ''c'', comp_flags = 0x0206, placement = XY 10 (- 20)\<rparr>]
     [OffsetComponent 2 10 (- 20) True True None] [''a'', ''b'', ''c''] True = Inr ()"
proof -
  let ?p = "\<lambda>d::string. (Inr [\<lparr>mnemonic = ''USEMYMETRICS'', flags = '''', stack_items = [], deltas = []\<rparr>,
                \<lparr>mnemonic = ''OFFSET'', flags = ''1'', stack_items = [2, 10, - 20], deltas = []\<rparr>]
                :: error + token list)"
  let ?g = "\<lparr>glyphName = ''c'', comp_flags = 0x0206, placement = XY 10 (- 20)\<rparr>"
  have a: "list_index [''a'', ''b'', ''c''] (glyphName ?g) = Some 2" by simp
  have b: "placement ?g = XY 10 (- 20)" by simp
  have c: "is_set (comp_flags ?g) ROUND_XY_TO_GRID" by (simp add: is_set_def ROUND_XY_TO_GRID_def)
  have d: "is_set (comp_flags ?g) USE_MY_METRICS \<and>
            \<not> is_set (comp_flags ?g) SCALED_COMPONENT_OFFSET \<and>
            \<not> is_set (comp_flags ?g) UNSCALED_COMPONENT_OFFSET"
    by (simp add: is_set_def USE_MY_METRICS_def SCALED_COMPONENT_OFFSET_def UNSCALED_COMPONENT_OFFSET_def)
  show ?thesis
    using usemymetrics_offset_example [of ?p "[''a'', ''b'', ''c'']" ?g "''g''", OF refl a b c] d
    by simp
qed

text \<open>
  Claim C5 as stated fails for the outline it describes: with the rounding bit but
  without the use-my-metrics bit the validation with flag checking is refused.
\<close>

theorem usemymetrics_offset_counterexample:
  "is_set 6 ROUND_XY_TO_GRID \<and>
   check_composite_info ''g'' [\<lparr>glyphName = ''c'', comp_flags = 6, placement = XY 10 (- 20)\<rparr>]
     [OffsetComponent 2 10 (- 20) True True None] [''a'', ''b'', ''c''] True =
     Inl (WrongUseMyMetrics 0 ''g'')"
  by (simp add: composite_eval)

section \<open>The stored form of a program\<close>

lemma CR_neq_LF [simp]: "CR \<noteq> LF" "LF \<noteq> CR"
  by (simp_all add: CR_def LF_def)



















section \<open>Head and tail of \<^verbatim>\<open>write_composite_info\<close>\<close>

lemma scan_partition:
  "scan bol gap s = (ms, tail) \<Longrightarrow>
     gap @ s = concat (map (\<lambda>(g, m). g @ m) ms) @ tail \<and>
     (\<forall>(g, m) \<in> set ms. m \<noteq> [] \<and> (\<exists>r. composite_info_RE (m @ r) = Some r))"
proof (induction bol gap s arbitrary: ms tail rule: scan.induct)
  case (1 bol gap s)
  show ?case
  proof (cases "s = []")
    case True
    then show ?thesis using "1.prems" by (simp add: scan.simps)
  next
    case ne: False
    show ?thesis
    proof (cases "if bol then composite_info_RE s else None")
      case None
      then have sc: "scan (hd s = LF) (gap @ [hd s]) (tl s) = (ms, tail)"
        using "1.prems" ne by (simp add: scan.simps [of bol gap s])
      from "1.IH"(1) [OF ne None sc] ne show ?thesis by simp
    next
      case (Some rest)
      then have re: "composite_info_RE s = Some rest" by (simp split: if_splits)
      then obtain m where m: "m \<noteq> []" "s = m @ rest" using composite_info_RE_suffix by blast
      have tk: "take (length s - length rest) s = m" using m by simp
      obtain ms' tail' where sc: "scan (last m = LF) [] rest = (ms', tail')"
        by (cases "scan (last m = LF) [] rest")
      have res: "ms = (gap, m) # ms'" "tail = tail'"
        using "1.prems" ne Some sc tk by (simp_all add: scan.simps [of bol gap s])
      have ih: "[] @ rest = concat (map (\<lambda>(g, m). g @ m) ms') @ tail' \<and>
         (\<forall>(g, m) \<in> set ms'. m \<noteq> [] \<and> (\<exists>r. composite_info_RE (m @ r) = Some r))"
        using "1.IH"(2) [OF ne Some tk [symmetric] sc] by simp
      have "composite_info_RE (m @ rest) = Some rest" using re m by simp
      then show ?thesis using ih res m by auto
    qed
  qed
qed

lemmas scan_eval =
  scan.simps composite_info_RE_def use_my_metrics_RE_def overlap_RE_def
  scaled_component_offset_RE_def anchor_RE_def offset_RE_def
  use_my_metrics_body_def overlap_body_def scaled_component_offset_body_def anchor_body_def
  offset_body_def rounding_letter_def orelse_def three_args_def number_arg_def
  digits_def opt_minus_def skip_spaces_def isdigit_def opt_eol_def LF_def CR_def Let_def

lemma scan_example:
  "scan True [] (''OVERLAP[]'' @ [LF] @ ''FOO'' @ [LF] @ ''OVERLAP[]'' @ [LF]) =
     ([([], ''OVERLAP[]'' @ [LF]), (''FOO'' @ [LF], ''OVERLAP[]'' @ [LF])], [])"
  by (simp add: scan_eval)

text \<open>
  Claim C9, as the code has it.  The text is the gaps and the declarations in turn,
  followed by the tail.  The head is all the gaps in their order: the text before
  the first declaration and the texts between the declarations.  The tail is the
  text after the last declaration, and the whole text when there is none.  Both are
  returned as they stand in the text.
\<close>

theorem head_tail_partition:
  assumes "write_composite_info glyph_components glyph_order data vtt_version = Inr (head, instructions, tail)"
  shows "\<exists>ms. scan True [] data = (ms, tail) \<and>
              head = concat (map fst ms) \<and>
              data = concat (map (\<lambda>(g, m). g @ m) ms) @ tail \<and>
              (\<forall>(g, m) \<in> set ms. m \<noteq> [] \<and> (\<exists>r. composite_info_RE (m @ r) = Some r)) \<and>
              (ms = [] \<longrightarrow> head = [] \<and> tail = data)"
proof -
  obtain ms t where sc: "scan True [] data = (ms, t)" by (cases "scan True [] data")
  have ht: "head = concat (map fst ms)" "tail = t"
    using assms sc by (auto simp: write_composite_info_def split: sum.splits)
  note p = scan_partition [OF sc]
  have "ms = [] \<longrightarrow> head = [] \<and> tail = data" using p ht by auto
  then show ?thesis using sc ht p by auto
qed

theorem head_tail_partition_witness:
  "write_composite_info [\<lparr>glyphName = ''b'', comp_flags = 0, placement = Points 3 4\<rparr>] [''a'', ''b'']
     (''SVTCA[X]'' @ [LF] @ ''OVERLAP[]'' @ [LF] @ ''FOO'' @ [LF] @ ''OVERLAP[]'' @ [LF] @ ''IUP[X]'') 6 =
     Inr (''SVTCA[X]'' @ [LF] @ ''FOO'' @ [LF], ''ANCHOR[], 1, 3, 4'' @ [LF], ''IUP[X]'') \<and>
   scan True [] (''SVTCA[X]'' @ [LF] @ ''OVERLAP[]'' @ [LF] @ ''FOO'' @ [LF] @ ''OVERLAP[]'' @ [LF] @ ''IUP[X]'') =
     ([(''SVTCA[X]'' @ [LF], ''OVERLAP[]'' @ [LF]), (''FOO'' @ [LF], ''OVERLAP[]'' @ [LF])], ''IUP[X]'')"
proof -
  let ?data = "''SVTCA[X]'' @ [LF] @ ''OVERLAP[]'' @ [LF] @ ''FOO'' @ [LF] @ ''OVERLAP[]'' @ [LF] @ ''IUP[X]''"
  have sc: "scan True [] ?data =
     ([(''SVTCA[X]'' @ [LF], ''OVERLAP[]'' @ [LF]), (''FOO'' @ [LF], ''OVERLAP[]'' @ [LF])], ''IUP[X]'')"
    by (simp add: scan_eval)
  have n: "str_int 1 = ''1''" "str_int 3 = ''3''" "str_int 4 = ''4''"
    by (simp_all add: str_int_def str_nat.simps digit_char_def)
  have w: "write_composite_info [\<lparr>glyphName = ''b'', comp_flags = 0, placement = Points 3 4\<rparr>] [''a'', ''b'']
     ?data 6 = Inr (''SVTCA[X]'' @ [LF] @ ''FOO'' @ [LF], ''ANCHOR[], 1, 3, 4'' @ [LF], ''IUP[X]'')"
    unfolding write_composite_info_def sc
    by (simp add: component_instructions_def is_set_def USE_MY_METRICS_def n)
  from head_tail_partition [OF w] w sc show ?thesis by simp
qed

text \<open>
  Claim C9 as stated fails: between two declarations stands \<^verbatim>\<open>FOO\<close>, and it is
  returned in the head, although nothing stands before the first declaration.
\<close>

theorem head_before_first_counterexample:
  "scan True [] (''OVERLAP[]'' @ [LF] @ ''FOO'' @ [LF] @ ''OVERLAP[]'' @ [LF]) =
     ([([], ''OVERLAP[]'' @ [LF]), (''FOO'' @ [LF], ''OVERLAP[]'' @ [LF])], []) \<and>
   write_composite_info [] [] (''OVERLAP[]'' @ [LF] @ ''FOO'' @ [LF] @ ''OVERLAP[]'' @ [LF]) 6 =
     Inr (''FOO'' @ [LF], [], []) \<and>
   ''FOO'' @ [LF] \<noteq> []"
  unfolding write_composite_info_def scan_example by simp

section \<open>Regenerating the declarations twice\<close>

lemma on_line_simps [simp]: "on_line y None = None" "on_line y (Some l') = Some (l' @ LF # y)"
  by (simp_all add: on_line_def)

lemma literal_line:
  "LF \<notin> set q \<Longrightarrow> literal q (l @ LF # y) = on_line y (literal q l)"
  by (induction q l rule: literal.induct) auto

lemma skip_spaces_line: "skip_spaces (l @ LF # y) = skip_spaces l @ LF # y"
  unfolding skip_spaces_def by (induction l) (auto simp: LF_def)

lemma opt_minus_line: "opt_minus (l @ LF # y) = opt_minus l @ LF # y"
  by (cases l) (auto simp: opt_minus_def LF_def)

lemma digits_line: "digits (l @ LF # y) = on_line y (digits l)"
proof -
  have nd: "\<not> isdigit LF" by (simp add: isdigit_def LF_def)
  have t: "takeWhile isdigit (l @ LF # y) = takeWhile isdigit l"
    using nd by (induction l) auto
  have d: "dropWhile isdigit (l @ LF # y) = dropWhile isdigit l @ LF # y"
    using nd by (induction l) auto
  show ?thesis by (simp add: digits_def t d)
qed

lemma number_arg_line: "number_arg (l @ LF # y) = on_line y (number_arg l)"
proof (cases l)
  case Nil
  then show ?thesis by (simp add: number_arg_def LF_def)
next
  case (Cons c cs)
  then show ?thesis
    by (simp add: number_arg_def skip_spaces_line opt_minus_line digits_line)
qed

lemma rounding_letter_line: "rounding_letter (l @ LF # y) = on_line y (rounding_letter l)"
  by (cases l) (simp_all add: rounding_letter_def LF_def)

lemma bind_on_line:
  assumes "\<And>l. p (l @ LF # y) = on_line y (p l)"
  shows "Option.bind (on_line y r) p = on_line y (Option.bind r p)"
  by (cases r) (simp_all add: assms)

lemma orelse_on_line: "orelse (on_line y a) (on_line y b) = on_line y (orelse a b)"
  by (cases a) (simp_all add: orelse_def)

lemma three_args_line: "three_args (l @ LF # y) = on_line y (three_args l)"
  by (simp add: three_args_def number_arg_line bind_on_line)

lemma LF_notin_literals:
  "LF \<notin> set ''USEMYMETRICS[]''" "LF \<notin> set ''OVERLAP[]''" "LF \<notin> set ''UN''"
  "LF \<notin> set ''SCALEDCOMPONENTOFFSET[]''" "LF \<notin> set ''ANCHOR[]''" "LF \<notin> set ''OFFSET[''"
  "LF \<notin> set '']''"
  by (simp_all add: LF_def)

lemma declaration_body_line: "declaration_body (l @ LF # y) = on_line y (declaration_body l)"
  by (simp only: declaration_body_def use_my_metrics_body_def overlap_body_def
      scaled_component_offset_body_def anchor_body_def offset_body_def
      literal_line [OF LF_notin_literals(1)] literal_line [OF LF_notin_literals(2)]
      literal_line [OF LF_notin_literals(3)] literal_line [OF LF_notin_literals(4)]
      literal_line [OF LF_notin_literals(5)] literal_line [OF LF_notin_literals(6)]
      bind_on_line [of "literal ''SCALEDCOMPONENTOFFSET[]''", OF literal_line [OF LF_notin_literals(4)]]
      bind_on_line [of "literal '']''", OF literal_line [OF LF_notin_literals(7)]]
      bind_on_line [of three_args, OF three_args_line]
      bind_on_line [of rounding_letter, OF rounding_letter_line]
      orelse_on_line)

text \<open>A line that holds no declaration holds none whatever follows it.\<close>

lemma composite_info_RE_line_None:
  "composite_info_RE (l @ [LF]) = None \<Longrightarrow> composite_info_RE (l @ LF # y) = None"
proof -
  assume "composite_info_RE (l @ [LF]) = None"
  then have "declaration_body (l @ LF # []) = None" by (simp add: composite_info_RE_body)
  then have "declaration_body l = None"
    unfolding declaration_body_line by (cases "declaration_body l") simp_all
  then show ?thesis by (simp add: composite_info_RE_body declaration_body_line)
qed

text \<open>A declaration that fills its line is found whatever follows the line.\<close>

lemma composite_info_RE_line_Some:
  "declaration_body b = Some [] \<Longrightarrow> composite_info_RE (b @ LF # y) = Some y"
  by (simp add: composite_info_RE_body declaration_body_line opt_eol_def)

lemma scan_nil: "scan bol gap [] = ([], gap)"
  by (simp add: scan.simps)

lemma scan_no_match:
  assumes "fst (scan bol gap s) = []"
  shows "scan bol gap s = ([], gap @ s)"
proof -
  obtain ms t where sc: "scan bol gap s = (ms, t)" by (cases "scan bol gap s")
  with assms have "ms = []" by simp
  with scan_partition [OF sc] sc show ?thesis by simp
qed

lemma scan_step_None:
  "s \<noteq> [] \<Longrightarrow> (bol \<Longrightarrow> composite_info_RE s = None) \<Longrightarrow>
     scan bol gap s = scan (hd s = LF) (gap @ [hd s]) (tl s)"
  by (cases bol) (simp_all add: scan.simps [of _ gap s])

lemma scan_step_Some:
  assumes "composite_info_RE (m @ rest) = Some rest" and "m \<noteq> []"
  shows "scan True gap (m @ rest) =
           ((gap, m) # fst (scan (last m = LF) [] rest), snd (scan (last m = LF) [] rest))"
  using assms by (simp add: scan.simps [of True gap "m @ rest"] split: prod.splits)

lemma scan_match_found:
  assumes "s \<noteq> []" and "composite_info_RE s = Some r"
  shows "fst (scan True gap s) \<noteq> []"
proof -
  obtain m where m: "m \<noteq> []" "s = m @ r" using composite_info_RE_suffix [OF assms(2)] by blast
  then have "composite_info_RE (m @ r) = Some r" using assms(2) by simp
  from scan_step_Some [OF this m(1)] m(2) show ?thesis by simp
qed

text \<open>Text without a declaration that ends a line is passed over the same way in front of any text.\<close>

lemma scan_prefix:
  assumes "fst (scan bol gap x) = []" and "x \<noteq> []" and "last x = LF"
  shows "scan bol gap (x @ rest) = scan True (gap @ x) rest"
  using assms
proof (induction x arbitrary: bol gap)
  case Nil
  then show ?case by simp
next
  case (Cons c cs)
  have none: "composite_info_RE (c # cs) = None" if bol
  proof (rule ccontr)
    assume "composite_info_RE (c # cs) \<noteq> None"
    then obtain r where "composite_info_RE (c # cs) = Some r" by auto
    from scan_match_found [OF _ this, of gap] that Cons.prems(1) show False by simp
  qed
  have x: "c # cs = butlast (c # cs) @ [LF]"
    using Cons.prems(3) by (metis append_butlast_last_id list.distinct(1))
  have none': "composite_info_RE ((c # cs) @ rest) = None" if bol
  proof -
    have "composite_info_RE (butlast (c # cs) @ [LF]) = None" using none [OF that] x by simp
    then have "composite_info_RE (butlast (c # cs) @ LF # rest) = None"
      by (rule composite_info_RE_line_None)
    moreover have "(c # cs) @ rest = butlast (c # cs) @ LF # rest"
      by (subst x) simp
    ultimately show ?thesis by simp
  qed
  have s1: "scan bol gap (c # cs) = scan (c = LF) (gap @ [c]) cs"
    using scan_step_None [of "c # cs" bol gap] none by simp
  have s2: "scan bol gap ((c # cs) @ rest) = scan (c = LF) (gap @ [c]) (cs @ rest)"
    using scan_step_None [of "(c # cs) @ rest" bol gap] none' by simp
  show ?case
  proof (cases "cs = []")
    case True
    then have "c = LF" using Cons.prems(3) by simp
    then show ?thesis using s2 True by simp
  next
    case False
    then have l: "last cs = LF" using Cons.prems(3) by simp
    have f: "fst (scan (c = LF) (gap @ [c]) cs) = []" using Cons.prems(1) s1 by simp
    from Cons.IH [OF f False l] s2 show ?thesis by simp
  qed
qed

text \<open>Declaration lines are found one after the other.\<close>

lemma scan_declaration_line:
  assumes "declaration_line l"
  shows "scan True gap (l @ rest) = ((gap, l) # fst (scan True [] rest), snd (scan True [] rest))"
proof -
  obtain b where b: "l = b @ [LF]" "declaration_body b = Some []"
    using assms by (auto simp: declaration_line_def)
  have "composite_info_RE (l @ rest) = Some rest"
    using composite_info_RE_line_Some [OF b(2), of rest] b(1) by simp
  from scan_step_Some [OF this] b(1) show ?thesis by simp
qed

lemma scan_declaration_lines:
  assumes "\<forall>l \<in> set ls. declaration_line l" and "ls \<noteq> []"
  shows "scan True gap (concat ls @ rest) =
           ((gap, hd ls) # map (\<lambda>l. ([], l)) (tl ls) @ fst (scan True [] rest), snd (scan True [] rest))"
  using assms
proof (induction ls arbitrary: gap)
  case Nil
  then show ?case by simp
next
  case (Cons l ls)
  have dl: "declaration_line l" using Cons.prems(1) by simp
  show ?case
  proof (cases "ls = []")
    case True
    then show ?thesis using scan_declaration_line [OF dl, of gap rest] by simp
  next
    case False
    have "scan True [] (concat ls @ rest) =
           (([], hd ls) # map (\<lambda>l. ([], l)) (tl ls) @ fst (scan True [] rest), snd (scan True [] rest))"
      using Cons.IH [of "[]"] Cons.prems(1) False by simp
    then show ?thesis
      using scan_declaration_line [OF dl, of gap "concat ls @ rest"] False
      by (cases ls) simp_all
  qed
qed

lemma digit_char_isdigit: "d < 10 \<Longrightarrow> isdigit (digit_char d)"
proof -
  assume "d < 10"
  then have "d \<in> {0, 1, 2, 3, 4, 5, 6, 7, 8, 9}" by auto
  then show ?thesis by (auto simp: digit_char_def isdigit_def)
qed

lemma str_nat_digits: "str_nat n \<noteq> [] \<and> (\<forall>c \<in> set (str_nat n). isdigit c)"
proof (induction n rule: str_nat.induct)
  case (1 n)
  show ?case
  proof (cases "n < 10")
    case True
    then show ?thesis by (simp add: str_nat.simps [of n] digit_char_isdigit)
  next
    case False
    then show ?thesis using 1 by (simp add: str_nat.simps [of n] digit_char_isdigit)
  qed
qed

lemma digits_run:
  assumes "ds \<noteq> []" and "\<forall>c \<in> set ds. isdigit c" and "r = [] \<or> \<not> isdigit (hd r)"
  shows "digits (ds @ r) = Some r"
proof -
  have t: "takeWhile isdigit (ds @ r) = ds"
    using assms(2,3) by (cases r) (simp_all add: takeWhile_tail)
  have d: "dropWhile isdigit (ds @ r) = r"
    using assms(2,3) by (cases r) (simp_all add: dropWhile_append3)
  show ?thesis using assms(1) by (simp add: digits_def t d)
qed

lemma number_arg_str_int:
  assumes "r = [] \<or> \<not> isdigit (hd r)"
  shows "number_arg ('', '' @ str_int n @ r) = Some r"
proof -
  have nd: "\<not> isdigit (CHR ''-'')" "\<not> isdigit (CHR '' '')" by (simp_all add: isdigit_def)
  have "\<exists>k. str_int n = str_nat k \<or> str_int n = CHR ''-'' # str_nat k"
    by (cases "n < 0") (auto simp: str_int_def)
  then obtain k where k: "str_int n = str_nat k \<or> str_int n = CHR ''-'' # str_nat k" by blast
  obtain c cs where c: "str_nat k = c # cs" "isdigit c"
    using str_nat_digits [of k] by (cases "str_nat k") auto
  have c': "c \<noteq> CHR '' ''" "c \<noteq> CHR ''-''" using c(2) nd by auto
  have run: "digits (str_nat k @ r) = Some r"
    using digits_run [OF _ _ assms, of "str_nat k"] str_nat_digits [of k] by blast
  from k show ?thesis
  proof
    assume "str_int n = str_nat k"
    then show ?thesis using run c c'
      by (simp add: number_arg_def skip_spaces_def opt_minus_def)
  next
    assume "str_int n = CHR ''-'' # str_nat k"
    then show ?thesis using run
      by (simp add: number_arg_def skip_spaces_def opt_minus_def)
  qed
qed

lemma three_args_str_int:
  "three_args ('', '' @ str_int a @ '', '' @ str_int b @ '', '' @ str_int c) = Some []"
proof -
  have nd: "\<not> isdigit (hd ('', '' @ x))" for x by (simp add: isdigit_def)
  have 1: "number_arg ('', '' @ str_int a @ ('', '' @ str_int b @ '', '' @ str_int c)) =
           Some ('', '' @ str_int b @ '', '' @ str_int c)"
    by (rule number_arg_str_int) (simp add: isdigit_def)
  have 2: "number_arg ('', '' @ str_int b @ ('', '' @ str_int c)) = Some ('', '' @ str_int c)"
    by (rule number_arg_str_int) (simp add: isdigit_def)
  have 3: "number_arg ('', '' @ str_int c @ []) = Some []"
    by (rule number_arg_str_int) simp
  show ?thesis using 1 2 3 by (simp add: three_args_def)
qed

lemma declaration_line_markers:
  "declaration_line (''USEMYMETRICS[]'' @ [LF])"
  "declaration_line (''SCALEDCOMPONENTOFFSET[]'' @ [LF])"
  "declaration_line (''UNSCALEDCOMPONENTOFFSET[]'' @ [LF])"
  unfolding declaration_line_def
  by (rule exI [of _ "''USEMYMETRICS[]''"], simp add: declaration_body_def use_my_metrics_body_def orelse_def,
      rule exI [of _ "''SCALEDCOMPONENTOFFSET[]''"],
      simp add: declaration_body_def use_my_metrics_body_def overlap_body_def
        scaled_component_offset_body_def orelse_def,
      rule exI [of _ "''UNSCALEDCOMPONENTOFFSET[]''"],
      simp add: declaration_body_def use_my_metrics_body_def overlap_body_def
        scaled_component_offset_body_def orelse_def)

lemma declaration_line_anchor:
  "declaration_line (''ANCHOR[], '' @ str_int a @ '', '' @ str_int b @ '', '' @ str_int c @ [LF])"
proof -
  let ?b = "''ANCHOR[], '' @ str_int a @ '', '' @ str_int b @ '', '' @ str_int c"
  have "anchor_body ?b = Some []"
    using three_args_str_int [of a b c] by (simp add: anchor_body_def)
  then have "declaration_body ?b = Some []"
    by (simp add: declaration_body_def use_my_metrics_body_def overlap_body_def
        scaled_component_offset_body_def orelse_def)
  then show ?thesis unfolding declaration_line_def by (intro exI [of _ ?b]) simp
qed

lemma declaration_line_offset:
  assumes "f = ''R'' \<or> f = ''r''"
  shows "declaration_line (''OFFSET['' @ f @ ''], '' @ str_int a @ '', '' @ str_int b @ '', '' @ str_int c @ [LF])"
proof -
  let ?b = "''OFFSET['' @ f @ ''], '' @ str_int a @ '', '' @ str_int b @ '', '' @ str_int c"
  have "offset_body ?b = Some []"
    using three_args_str_int [of a b c] assms by (auto simp: offset_body_def rounding_letter_def)
  then have "declaration_body ?b = Some []"
    using assms
    by (auto simp: declaration_body_def use_my_metrics_body_def overlap_body_def
        scaled_component_offset_body_def anchor_body_def orelse_def)
  then show ?thesis unfolding declaration_line_def by (intro exI [of _ ?b]) simp
qed

lemma component_instructions_lines:
  assumes "component_instructions glyph_order vtt_version gcomp = Inr ls"
  shows "ls \<noteq> [] \<and> (\<forall>l \<in> set ls. declaration_line l)"
  using assms declaration_line_markers declaration_line_anchor
    declaration_line_offset [of "''R''"] declaration_line_offset [of "''r''"]
  by (auto simp: component_instructions_def Let_def split: option.splits placement.splits if_splits)

lemma instructions_of_lines:
  "instructions_of glyph_order vtt_version gcomps = Inr ls \<Longrightarrow>
     (ls = []) = (gcomps = []) \<and> (\<forall>l \<in> set ls. declaration_line l)"
proof (induction gcomps arbitrary: ls)
  case Nil
  then show ?case by simp
next
  case (Cons g gs)
  from Cons.prems obtain l1 l2 where l: "component_instructions glyph_order vtt_version g = Inr l1"
    "instructions_of glyph_order vtt_version gs = Inr l2" "ls = l1 @ l2"
    by (auto split: sum.splits)
  from component_instructions_lines [OF l(1)] Cons.IH [OF l(2)] l(3) show ?case by auto
qed

text \<open>Every gap in front of a declaration is empty or ends a line.\<close>

lemma scan_gaps:
  assumes "scan bol gap s = (ms, tail)" and "gap \<noteq> [] \<longrightarrow> bol \<longrightarrow> last gap = LF"
  shows "\<forall>(g, m) \<in> set ms. g = [] \<or> last g = LF"
  using assms
proof (induction bol gap s arbitrary: ms tail rule: scan.induct)
  case (1 bol gap s)
  show ?case
  proof (cases "s = []")
    case True
    then show ?thesis using "1.prems"(1) by (simp add: scan.simps)
  next
    case ne: False
    show ?thesis
    proof (cases "if bol then composite_info_RE s else None")
      case None
      then have sc: "scan (hd s = LF) (gap @ [hd s]) (tl s) = (ms, tail)"
        using "1.prems"(1) ne by (simp add: scan.simps [of bol gap s])
      show ?thesis by (rule "1.IH"(1) [OF ne None sc]) simp
    next
      case (Some rest)
      then have b: bol and re: "composite_info_RE s = Some rest" by (simp_all split: if_splits)
      obtain m where m: "m \<noteq> []" "s = m @ rest" using composite_info_RE_suffix [OF re] by blast
      have tk: "take (length s - length rest) s = m" using m by simp
      obtain ms' tail' where sc: "scan (last m = LF) [] rest = (ms', tail')"
        by (cases "scan (last m = LF) [] rest")
      have res: "ms = (gap, m) # ms'"
        using "1.prems"(1) ne Some sc tk by (simp add: scan.simps [of bol gap s])
      have "\<forall>(g, m) \<in> set ms'. g = [] \<or> last g = LF"
        by (rule "1.IH"(2) [OF ne Some tk [symmetric] sc]) simp
      moreover have "gap = [] \<or> last gap = LF" using "1.prems"(2) b by blast
      ultimately show ?thesis using res by simp
    qed
  qed
qed

lemma concat_ends_line:
  "\<forall>g \<in> set gs. g = [] \<or> last g = LF \<Longrightarrow> concat gs = [] \<or> last (concat gs) = LF"
proof (induction gs rule: rev_induct)
  case Nil
  show ?case by simp
next
  case (snoc g gs)
  show ?case
  proof (cases "g = []")
    case True
    then show ?thesis using snoc by simp
  next
    case False
    then have "last g = LF" using snoc.prems by auto
    then show ?thesis using False by simp
  qed
qed

lemma head_ends_line:
  assumes "scan True [] data = (ms, tail)"
  shows "concat (map fst ms) = [] \<or> last (concat (map fst ms)) = LF"
proof -
  have "\<forall>(g, m) \<in> set ms. g = [] \<or> last g = LF" by (rule scan_gaps [OF assms]) simp
  then have "\<forall>g \<in> set (map fst ms). g = [] \<or> last g = LF" by auto
  then show ?thesis by (rule concat_ends_line)
qed

lemma scan_regenerated:
  assumes "h = [] \<or> last h = LF"
      and "fst (scan True [] h) = []" and "fst (scan True [] t) = []"
      and "\<forall>l \<in> set ls. declaration_line l" and "ls \<noteq> [] \<or> h = []"
  shows "concat (map fst (fst (scan True [] (h @ concat ls @ t)))) = h \<and>
         snd (scan True [] (h @ concat ls @ t)) = t"
proof -
  have st: "scan True [] t = ([], t)" using scan_no_match [OF assms(3)] by simp
  show ?thesis
  proof (cases "h = []")
    case True
    show ?thesis
    proof (cases "ls = []")
      case e: True
      then show ?thesis using True st by simp
    next
      case False
      then show ?thesis
        using scan_declaration_lines [OF assms(4) False, of "[]" t] True st by (simp add: comp_def)
    qed
  next
    case False
    then have l: "last h = LF" and ne: "ls \<noteq> []" using assms(1,5) by auto
    have "scan True [] (h @ concat ls @ t) = scan True ([] @ h) (concat ls @ t)"
      by (rule scan_prefix [OF assms(2) False l])
    then show ?thesis
      using scan_declaration_lines [OF assms(4) ne, of h t] st by (simp add: comp_def)
  qed
qed

text \<open>
  Claim C8, as the code has it.  The declaration text depends on the outline and the
  glyph order alone, so every text gives the same one.  When the head and the tail of
  a first call hold no declaration of their own, and the outline has a component or
  the head is empty, a second call on the concatenated result returns the same head,
  declarations and tail.
\<close>

theorem regeneration_idempotent:
  assumes "write_composite_info glyph_components glyph_order data vtt_version = Inr (head, instructions, tail)"
  shows "(\<forall>data'. \<exists>head' tail'.
            write_composite_info glyph_components glyph_order data' vtt_version =
              Inr (head', instructions, tail')) \<and>
         (fst (scan True [] head) = [] \<and> fst (scan True [] tail) = [] \<and>
          (glyph_components \<noteq> [] \<or> head = []) \<longrightarrow>
            write_composite_info glyph_components glyph_order (head @ instructions @ tail) vtt_version =
              Inr (head, instructions, tail))"
proof -
  obtain ms where sc: "scan True [] data = (ms, tail)" and h: "head = concat (map fst ms)"
    using assms by (cases "scan True [] data") (auto simp: write_composite_info_def split: sum.splits)
  obtain ls where ls: "instructions_of glyph_order vtt_version glyph_components = Inr ls"
    and i: "instructions = concat ls"
    using assms by (auto simp: write_composite_info_def split: sum.splits prod.splits)
  have same: "\<exists>head' tail'. write_composite_info glyph_components glyph_order data' vtt_version =
      Inr (head', instructions, tail')" for data'
    using ls i by (simp add: write_composite_info_def split: prod.splits)
  have again: "write_composite_info glyph_components glyph_order (head @ instructions @ tail) vtt_version =
      Inr (head, instructions, tail)"
    if nh: "fst (scan True [] head) = []" and nt: "fst (scan True [] tail) = []"
      and c: "glyph_components \<noteq> [] \<or> head = []"
  proof -
    have e: "head = [] \<or> last head = LF" unfolding h by (rule head_ends_line [OF sc])
    have dl: "\<forall>l \<in> set ls. declaration_line l" and ne: "(ls = []) = (glyph_components = [])"
      using instructions_of_lines [OF ls] by auto
    have "ls \<noteq> [] \<or> head = []" using c ne by auto
    from scan_regenerated [OF e nh nt dl this]
    have r: "concat (map fst (fst (scan True [] (head @ instructions @ tail)))) = head"
      "snd (scan True [] (head @ instructions @ tail)) = tail"
      by (simp_all add: i)
    show ?thesis
      using ls r by (simp add: write_composite_info_def i [symmetric] split_beta)
  qed
  show ?thesis using same again by blast
qed

theorem regeneration_idempotent_witness:
  "write_composite_info [\<lparr>glyphName = ''b'', comp_flags = 0, placement = Points 3 4\<rparr>] [''a'', ''b'']
     (''SVTCA[X]'' @ [LF] @ ''OVERLAP[]'' @ [LF] @ ''FOO'' @ [LF] @ ''OVERLAP[]'' @ [LF] @ ''IUP[X]'') 6 =
     Inr (''SVTCA[X]'' @ [LF] @ ''FOO'' @ [LF], ''ANCHOR[], 1, 3, 4'' @ [LF], ''IUP[X]'') \<and>
   write_composite_info [\<lparr>glyphName = ''b'', comp_flags = 0, placement = Points 3 4\<rparr>] [''a'', ''b'']
     ((''SVTCA[X]'' @ [LF] @ ''FOO'' @ [LF]) @ (''ANCHOR[], 1, 3, 4'' @ [LF]) @ ''IUP[X]'') 6 =
     Inr (''SVTCA[X]'' @ [LF] @ ''FOO'' @ [LF], ''ANCHOR[], 1, 3, 4'' @ [LF], ''IUP[X]'')"
proof -
  let ?g = "[\<lparr>glyphName = ''b'', comp_flags = 0, placement = Points 3 4\<rparr>]"
  let ?data = "''SVTCA[X]'' @ [LF] @ ''OVERLAP[]'' @ [LF] @ ''FOO'' @ [LF] @ ''OVERLAP[]'' @ [LF] @ ''IUP[X]''"
  have sc: "scan True [] ?data =
     ([(''SVTCA[X]'' @ [LF], ''OVERLAP[]'' @ [LF]), (''FOO'' @ [LF], ''OVERLAP[]'' @ [LF])], ''IUP[X]'')"
    by (simp add: scan_eval)
  have n: "str_int 1 = ''1''" "str_int 3 = ''3''" "str_int 4 = ''4''"
    by (simp_all add: str_int_def str_nat.simps digit_char_def)
  have w: "write_composite_info ?g [''a'', ''b''] ?data 6 =
     Inr (''SVTCA[X]'' @ [LF] @ ''FOO'' @ [LF], ''ANCHOR[], 1, 3, 4'' @ [LF], ''IUP[X]'')"
    unfolding write_composite_info_def sc
    by (simp add: component_instructions_def is_set_def USE_MY_METRICS_def n)
  have nh: "fst (scan True [] (''SVTCA[X]'' @ [LF] @ ''FOO'' @ [LF])) = []"
    by (simp add: scan_eval)
  have nt: "fst (scan True [] ''IUP[X]'') = []"
    by (simp add: scan_eval)
  from regeneration_idempotent [OF w] nh nt w show ?thesis by simp
qed

text \<open>
  Claim C8 as stated fails.  In a text with CR line ends the second statement does
  not start a line and stays in the tail; behind the regenerated declarations, which
  end in LF, it does start a line, and the second call takes it for a declaration.
\<close>

theorem regeneration_tail_counterexample:
  "write_composite_info [\<lparr>glyphName = ''b'', comp_flags = 0, placement = XY 0 0\<rparr>] [''a'', ''b'']
     (''OVERLAP[]'' @ [CR] @ ''USEMYMETRICS[]'' @ [CR]) 6 =
     Inr ([], ''OFFSET[r], 1, 0, 0'' @ [LF], ''USEMYMETRICS[]'' @ [CR]) \<and>
   write_composite_info [\<lparr>glyphName = ''b'', comp_flags = 0, placement = XY 0 0\<rparr>] [''a'', ''b'']
     ([] @ (''OFFSET[r], 1, 0, 0'' @ [LF]) @ (''USEMYMETRICS[]'' @ [CR])) 6 =
     Inr ([], ''OFFSET[r], 1, 0, 0'' @ [LF], []) \<and>
   ''USEMYMETRICS[]'' @ [CR] \<noteq> []"
proof -
  have n: "str_int 1 = ''1''" "str_int 0 = ''0''"
    by (simp_all add: str_int_def str_nat.simps digit_char_def)
  have s1: "scan True [] (''OVERLAP[]'' @ [CR] @ ''USEMYMETRICS[]'' @ [CR]) =
     ([([], ''OVERLAP[]'' @ [CR])], ''USEMYMETRICS[]'' @ [CR])"
    by (simp add: scan_eval)
  have s2: "scan True [] ([] @ (''OFFSET[r], 1, 0, 0'' @ [LF]) @ (''USEMYMETRICS[]'' @ [CR])) =
     ([([], ''OFFSET[r], 1, 0, 0'' @ [LF]), ([], ''USEMYMETRICS[]'' @ [CR])], [])"
    by (simp add: scan_eval)
  show ?thesis
    unfolding write_composite_info_def s1 s2
    by (simp add: component_instructions_def is_set_def USE_MY_METRICS_def SCALED_COMPONENT_OFFSET_def
        UNSCALED_COMPONENT_OFFSET_def ROUND_XY_TO_GRID_def n)
qed

end
